theory Spec2Isabelle
  imports Main "HOL-Library.Multiset"
begin

section \<open>The order-matching engine of \<^verbatim>\<open>server/app/matcher\<close>\<close>

text \<open>
  A shallow embedding of the class \<^verbatim>\<open>Matcher\<close> and of the struct \<^verbatim>\<open>Order\<close>.
  JavaScript numbers that the tcomb types declare \<^verbatim>\<open>t.Integer\<close> are HOL integers:
  \<open>processOrder\<close> computes on them exactly, and \<open>processOrderDouble\<close> rounds every arithmetic
  result as the doubles of the code do; the two agree on every step whose results are safe
  integers, and the statements that depend on the value of an arithmetic result are about
  \<open>processOrderDouble\<close>. Account identifiers and the order action are strings, and a moment timestamp is its number of
  milliseconds, so that \<^verbatim>\<open>a.time.diff(b.time)\<close> is a subtraction. The clock (\<^verbatim>\<open>moment()\<close>)
  and the identifier generator (\<^verbatim>\<open>uuidv4()\<close>) are inputs of the operations that read them.
  Every method takes the engine and returns the engine it leaves behind, also when it
  throws: an exception is the left injection of the result, next to the state at the throw.
\<close>

subsection \<open>Data\<close>

definition BUY :: string where
  "BUY = ''BUY''"

definition SELL :: string where
  "SELL = ''SELL''"

record Order =
  account :: string
  price :: int
  quantity :: int
  action :: string
  time :: int

record Balance =
  money :: int
  stock :: int

text \<open>The fields \<^verbatim>\<open>quantity\<close> and \<^verbatim>\<open>time\<close> of a history entry are renamed, the
  names being taken by the fields of an order.\<close>

record HistoryEntry =
  buyer :: string
  seller :: string
  buyPrice :: int
  sellPrice :: int
  tradeQuantity :: int
  tradeTime :: int

record Matcher =
  buyOrders :: "Order list"
  sellOrders :: "Order list"
  overheadMade :: int
  users :: "string \<rightharpoonup> Balance"
  history :: "HistoryEntry list"

text \<open>
  The exceptions of the class, one constructor for each \<^verbatim>\<open>throw\<close>, and two for what
  JavaScript does without a \<^verbatim>\<open>throw\<close> statement: \<open>TypeError\<close> is the property read on
  \<^verbatim>\<open>undefined\<close> (an order whose account is not a key of \<^verbatim>\<open>users\<close>), and \<open>DivisionByZero\<close>
  marks a quotient with divisor 0, which in JavaScript is an infinity or NaN and not an
  integer any more, while HOL would return 0.
\<close>

datatype error =
    ZeroQuantity
  | UnexpectedAction
  | NoBuyOrders
  | NoSellOrders
  | NoOverlap
  | TypeError
  | DivisionByZero

type_synonym 'a result = "(error + 'a) \<times> Matcher"

definition constructor :: Matcher where
  "constructor =
     \<lparr>buyOrders = [], sellOrders = [], overheadMade = 0, users = Map.empty, history = []\<rparr>"

text \<open>The getters \<^verbatim>\<open>getHistory\<close>, \<^verbatim>\<open>getOverheadMade\<close> and \<^verbatim>\<open>getUsers\<close>.\<close>

definition getHistory :: "Matcher \<Rightarrow> HistoryEntry list" where
  "getHistory this = history this"

definition getOverheadMade :: "Matcher \<Rightarrow> int" where
  "getOverheadMade this = overheadMade this"

definition getUsers :: "Matcher \<Rightarrow> (string \<rightharpoonup> Balance)" where
  "getUsers this = users this"

subsection \<open>Sorting an array with a comparator\<close>

text \<open>
  \<^verbatim>\<open>Array.prototype.sort(compare)\<close> puts \<open>a\<close> before \<open>b\<close> when \<open>compare a b\<close> is
  negative and keeps the order of elements that compare equal (the sort is stable). It is
  an insertion sort here: each element goes before the first one it does not come after.
\<close>

fun insertBy :: "('a \<Rightarrow> 'a \<Rightarrow> int) \<Rightarrow> 'a \<Rightarrow> 'a list \<Rightarrow> 'a list" where
  "insertBy compare x [] = [x]"
| "insertBy compare x (y # ys) =
     (if compare x y \<le> 0 then x # y # ys else y # insertBy compare x ys)"

fun sortBy :: "('a \<Rightarrow> 'a \<Rightarrow> int) \<Rightarrow> 'a list \<Rightarrow> 'a list" where
  "sortBy compare [] = []"
| "sortBy compare (x # xs) = insertBy compare x (sortBy compare xs)"

text \<open>\<^verbatim>\<open>Array.prototype.shift()\<close> removes the first element; on an empty array it does
  nothing.\<close>

fun shift :: "'a list \<Rightarrow> 'a list" where
  "shift [] = []"
| "shift (x # xs) = xs"

text \<open>The comparators of \<^verbatim>\<open>getBestBuyOrder\<close> and \<^verbatim>\<open>getBestSellOrder\<close>.\<close>

definition buyCompare :: "Order \<Rightarrow> Order \<Rightarrow> int" where
  "buyCompare a b =
     (if 0 \<noteq> price b - price a then price b - price a else time a - time b)"

definition sellCompare :: "Order \<Rightarrow> Order \<Rightarrow> int" where
  "sellCompare a b =
     (if 0 \<noteq> price a - price b then price a - price b else time a - time b)"

subsection \<open>Accounts and admission\<close>

text \<open>\<^verbatim>\<open>addUser(money, stock)\<close>; \<open>userid\<close> is the identifier \<^verbatim>\<open>uuidv4()\<close> returns.\<close>

definition addUser :: "string \<Rightarrow> int \<Rightarrow> int \<Rightarrow> Matcher \<Rightarrow> string \<times> Matcher" where
  "addUser userid m s this =
     (userid, this\<lparr>users := (users this)(userid \<mapsto> \<lparr>money = m, stock = s\<rparr>)\<rparr>)"

text \<open>
  \<^verbatim>\<open>addOrderPreservingTimestamp\<close>. Its first check, \<^verbatim>\<open>order instanceof Order\<close>, holds of
  every value of the record type.
\<close>

definition addOrderPreservingTimestamp :: "Order \<Rightarrow> Matcher \<Rightarrow> unit result" where
  "addOrderPreservingTimestamp order this =
     (if quantity order = 0 then (Inl ZeroQuantity, this)
      else if action order = BUY then
        (Inr (), this\<lparr>buyOrders := buyOrders this @ [order]\<rparr>)
      else if action order = SELL then
        (Inr (), this\<lparr>sellOrders := sellOrders this @ [order]\<rparr>)
      else (Inl UnexpectedAction, this))"

text \<open>\<^verbatim>\<open>addOrder\<close>; \<open>now\<close> is the value of \<^verbatim>\<open>moment()\<close>.\<close>

definition addOrder :: "int \<Rightarrow> Order \<Rightarrow> Matcher \<Rightarrow> unit result" where
  "addOrder now order this = addOrderPreservingTimestamp (order\<lparr>time := now\<rparr>) this"

definition getOrdersByAccount :: "string \<Rightarrow> Matcher \<Rightarrow> Order list" where
  "getOrdersByAccount acc this =
     filter (\<lambda>x. account x = acc) (buyOrders this)
       @ filter (\<lambda>x. account x = acc) (sellOrders this)"

subsection \<open>Best orders and overlap\<close>

text \<open>Both queries sort their array in place before they read its first element.\<close>

definition getBestBuyOrder :: "Matcher \<Rightarrow> Order result" where
  "getBestBuyOrder this =
     (let this' = this\<lparr>buyOrders := sortBy buyCompare (buyOrders this)\<rparr>
      in case buyOrders this' of
           [] \<Rightarrow> (Inl NoBuyOrders, this')
         | bestOrder # _ \<Rightarrow> (Inr bestOrder, this'))"

definition getBestSellOrder :: "Matcher \<Rightarrow> Order result" where
  "getBestSellOrder this =
     (let this' = this\<lparr>sellOrders := sortBy sellCompare (sellOrders this)\<rparr>
      in case sellOrders this' of
           [] \<Rightarrow> (Inl NoSellOrders, this')
         | bestOrder # _ \<Rightarrow> (Inr bestOrder, this'))"

definition getBestNBuyOrders :: "nat \<Rightarrow> Matcher \<Rightarrow> Order list \<times> Matcher" where
  "getBestNBuyOrders n this =
     (case getBestBuyOrder this of
        (Inl e, this') \<Rightarrow> ([], this')
      | (Inr _, this') \<Rightarrow> (take n (buyOrders this'), this'))"

definition getBestNSellOrders :: "nat \<Rightarrow> Matcher \<Rightarrow> Order list \<times> Matcher" where
  "getBestNSellOrders n this =
     (case getBestSellOrder this of
        (Inl e, this') \<Rightarrow> ([], this')
      | (Inr _, this') \<Rightarrow> (take n (sellOrders this'), this'))"

text \<open>\<^verbatim>\<open>hasFoundOverlap\<close>: the \<^verbatim>\<open>catch\<close> turns either exception into \<^verbatim>\<open>false\<close>.\<close>

definition hasFoundOverlap :: "Matcher \<Rightarrow> bool \<times> Matcher" where
  "hasFoundOverlap this =
     (case getBestBuyOrder this of
        (Inl e, this1) \<Rightarrow> (False, this1)
      | (Inr bestBuyOrder, this1) \<Rightarrow>
          (case getBestSellOrder this1 of
             (Inl e, this2) \<Rightarrow> (False, this2)
           | (Inr bestSellOrder, this2) \<Rightarrow>
               (price bestBuyOrder > price bestSellOrder, this2)))"

subsection \<open>One settlement step\<close>

text \<open>Sequencing of two statements, the first of which may throw.\<close>

definition andThen :: "'a result \<Rightarrow> ('a \<Rightarrow> Matcher \<Rightarrow> 'b result) \<Rightarrow> 'b result" where
  "andThen r f = (case r of (Inl e, this) \<Rightarrow> (Inl e, this) | (Inr v, this) \<Rightarrow> f v this)"

text \<open>
  \<^verbatim>\<open>processOrder\<close>, statement by statement; \<open>now\<close> is the value of \<^verbatim>\<open>moment()\<close> for the
  history entry. The object literal \<^verbatim>\<open>usersPatch\<close> has the buyer's key first and the
  seller's second, so the seller's entry is the one that stays when both are one account.
\<close>

definition processOrder :: "int \<Rightarrow> Matcher \<Rightarrow> unit result" where
  "processOrder now this =
     (case hasFoundOverlap this of
        (False, this0) \<Rightarrow> (Inl NoOverlap, this0)
      | (True, this0) \<Rightarrow>
     andThen (getBestBuyOrder this0) (\<lambda>bestBuyOrder this1.
     andThen (getBestSellOrder this1) (\<lambda>bestSellOrder this2.
       let sellingUser = users this2 (account bestSellOrder);
           buyingUser = users this2 (account bestBuyOrder);
           stockDelta0 = min (quantity bestBuyOrder) (quantity bestSellOrder)
       in case sellingUser of
            None \<Rightarrow> (Inl TypeError, this2)
          | Some sellingUser \<Rightarrow>
      (let stockDelta1 =
             (if stock sellingUser < quantity bestSellOrder then stock sellingUser
              else stockDelta0)
       in if stockDelta1 = 0 then (Inr (), this2\<lparr>sellOrders := shift (sellOrders this2)\<rparr>)
          else
       let singleBuyCost = price bestBuyOrder;
           totalBuyCost1 = singleBuyCost * stockDelta1
       in case buyingUser of
            None \<Rightarrow> (Inl TypeError, this2)
          | Some buyingUser \<Rightarrow>
         (if money buyingUser < singleBuyCost then
            (Inr (), this2\<lparr>buyOrders := shift (buyOrders this2)\<rparr>)
          else if money buyingUser < totalBuyCost1 \<and> singleBuyCost = 0 then
            (Inl DivisionByZero, this2)
          else
       let stockDelta =
             (if money buyingUser < totalBuyCost1 then money buyingUser div singleBuyCost
              else stockDelta1);
           totalBuyCost =
             (if money buyingUser < totalBuyCost1 then singleBuyCost * stockDelta
              else totalBuyCost1);
           totalSellCost = stockDelta * price bestSellOrder;
           overhead = totalBuyCost - totalSellCost;
           newBuyerStock = stock buyingUser + stockDelta;
           newSellerStock = stock sellingUser - stockDelta;
           newBuyerMoney = money buyingUser - totalBuyCost;
           newSellerMoney = money sellingUser + totalSellCost;
           this3 = this2
             \<lparr>overheadMade := overheadMade this2 + overhead,
              users := (users this2)
                (account bestBuyOrder \<mapsto> \<lparr>money = newBuyerMoney, stock = newBuyerStock\<rparr>,
                 account bestSellOrder \<mapsto> \<lparr>money = newSellerMoney, stock = newSellerStock\<rparr>)\<rparr>
       in
       andThen
         (if stockDelta < quantity bestBuyOrder then
            addOrderPreservingTimestamp
              (bestBuyOrder\<lparr>quantity := quantity bestBuyOrder - stockDelta\<rparr>) this3
          else (Inr (), this3)) (\<lambda>_ this4.
       andThen
         (if stockDelta < quantity bestSellOrder then
            addOrderPreservingTimestamp
              (bestSellOrder\<lparr>quantity := quantity bestSellOrder - stockDelta\<rparr>) this4
          else (Inr (), this4)) (\<lambda>_ this5.
       (Inr (), this5
          \<lparr>buyOrders := shift (buyOrders this5),
           sellOrders := shift (sellOrders this5),
           history := history this5 @
             [\<lparr>buyer = account bestBuyOrder, seller = account bestSellOrder,
               buyPrice = price bestBuyOrder, sellPrice = price bestSellOrder,
               tradeQuantity = stockDelta, tradeTime = now\<rparr>]\<rparr>))))))))"

subsection \<open>Sequences of calls\<close>

text \<open>
  The calls of the public interface that can change the engine (the two best-order queries
  and the overlap check among them, because they sort), and the engine after a sequence
  of them, whatever each call returns or throws. A reachable engine is
  \<open>performAll calls constructor\<close> for some list of calls.
\<close>

datatype call =
    AddUser string int int
  | AddOrder int Order
  | GetBestBuyOrder
  | GetBestSellOrder
  | GetBestNBuyOrders nat
  | GetBestNSellOrders nat
  | HasFoundOverlap
  | ProcessOrder int

fun perform :: "call \<Rightarrow> Matcher \<Rightarrow> Matcher" where
  "perform (AddUser userid m s) this = snd (addUser userid m s this)"
| "perform (AddOrder now order) this = snd (addOrder now order this)"
| "perform GetBestBuyOrder this = snd (getBestBuyOrder this)"
| "perform GetBestSellOrder this = snd (getBestSellOrder this)"
| "perform (GetBestNBuyOrders n) this = snd (getBestNBuyOrders n this)"
| "perform (GetBestNSellOrders n) this = snd (getBestNSellOrders n this)"
| "perform HasFoundOverlap this = snd (hasFoundOverlap this)"
| "perform (ProcessOrder now) this = snd (processOrder now this)"

fun performAll :: "call list \<Rightarrow> Matcher \<Rightarrow> Matcher" where
  "performAll [] this = this"
| "performAll (c # cs) this = performAll cs (perform c this)"


subsection \<open>Properties of an engine state\<close>

definition balancesNonNegative :: "Matcher \<Rightarrow> bool" where
  "balancesNonNegative this = (\<forall>b\<in>ran (users this). 0 \<le> money b \<and> 0 \<le> stock b)"

definition pricesNonNegative :: "Matcher \<Rightarrow> bool" where
  "pricesNonNegative this = (\<forall>x\<in>set (buyOrders this @ sellOrders this). 0 \<le> price x)"

definition quantitiesNonNegative :: "Matcher \<Rightarrow> bool" where
  "quantitiesNonNegative this = (\<forall>x\<in>set (buyOrders this @ sellOrders this). 0 \<le> quantity x)"


text \<open>Every booked bid is a \<^verbatim>\<open>BUY\<close> order and every booked ask a \<^verbatim>\<open>SELL\<close> order, as
  admission files them.\<close>

definition booksWellFormed :: "Matcher \<Rightarrow> bool" where
  "booksWellFormed this =
     ((\<forall>x\<in>set (buyOrders this). action x = BUY) \<and> (\<forall>x\<in>set (sellOrders this). action x = SELL))"

subsection \<open>Engines of the test suite and of the scenarios\<close>

text \<open>\<^verbatim>\<open>new Order({account, price, quantity, action})\<close>: the constructor leaves the time
  unset, and \<^verbatim>\<open>addOrder\<close> overwrites it.\<close>

definition newOrder :: "string \<Rightarrow> int \<Rightarrow> int \<Rightarrow> string \<Rightarrow> Order" where
  "newOrder a p q act = \<lparr>account = a, price = p, quantity = q, action = act, time = 0\<rparr>"

definition scenarioA :: Matcher where
  "scenarioA = performAll
     [AddUser ''A'' 15000 71, AddUser ''B'' 19000 17,
      AddOrder 1 (newOrder ''A'' 1500 5 BUY), AddOrder 2 (newOrder ''B'' 1000 5 SELL)]
     constructor"

definition scenarioC :: Matcher where
  "scenarioC = performAll
     [AddUser ''A'' 15000 71, AddUser ''B'' 19000 17,
      AddOrder 1 (newOrder ''A'' 10000 6 BUY), AddOrder 2 (newOrder ''B'' 1000 5 SELL)]
     constructor"

definition scenarioD :: Matcher where
  "scenarioD = performAll
     [AddUser ''A'' 15000 71, AddUser ''B'' 19000 17, AddUser ''C'' 43000 0,
      AddOrder 1 (newOrder ''A'' 1500 5 BUY), AddOrder 2 (newOrder ''C'' 100 1 SELL),
      AddOrder 3 (newOrder ''B'' 1000 5 SELL)]
     constructor"

text \<open>Equal best prices, and two bids and two asks that tie on the price.\<close>

definition tiedBooks :: Matcher where
  "tiedBooks = performAll
     [AddUser ''A'' 15000 71, AddUser ''B'' 19000 17,
      AddOrder 1 (newOrder ''A'' 1200 4 BUY), AddOrder 2 (newOrder ''B'' 1300 10 BUY),
      AddOrder 3 (newOrder ''A'' 1300 7 BUY), AddOrder 4 (newOrder ''B'' 1400 2 SELL),
      AddOrder 5 (newOrder ''A'' 1300 3 SELL), AddOrder 6 (newOrder ''B'' 1300 8 SELL)]
     constructor"




text \<open>One account on both sides of a crossing pair of orders.\<close>

definition selfTrade :: Matcher where
  "selfTrade = performAll
     [AddUser ''A'' 15000 71,
      AddOrder 1 (newOrder ''A'' 1500 5 BUY), AddOrder 2 (newOrder ''A'' 1000 5 SELL)]
     constructor"

subsection \<open>The arithmetic of doubles\<close>

text \<open>
  The numbers of the engine are IEEE 754 doubles whose values are integers; \<^verbatim>\<open>t.Integer\<close>
  admits them at any magnitude. Comparisons and \<^verbatim>\<open>Math.min\<close> are exact; a sum, a difference
  or a product is the exact result rounded to the nearest double, ties to the even
  significand. Every integer of magnitude at most \<open>2 ^ 53\<close> is a double; beyond, a double
  keeps 53 leading bits. The exponent range is not modelled: a result of magnitude
  \<open>2 ^ 1024\<close> or more is an infinity in the code and a quotient below \<open>2 ^ -1022\<close> is
  subnormal, and every statement below about rounded arithmetic is at numbers far from both.
\<close>

text \<open>\<^verbatim>\<open>Number.isSafeInteger\<close> on an integer.\<close>

definition isSafeInteger :: "int \<Rightarrow> bool" where
  "isSafeInteger x = (\<bar>x\<bar> \<le> 2 ^ 53 - 1)"

text \<open>The integer nearest to \<open>n / d\<close>, for \<open>n \<ge> 0\<close> and \<open>d > 0\<close>; of two equally near, the even
  one.\<close>

definition nearestEven :: "int \<Rightarrow> int \<Rightarrow> int" where
  "nearestEven n d =
     (let k = n div d; r = n mod d
      in if 2 * r < d then k else if d < 2 * r then k + 1 else if even k then k else k + 1)"

text \<open>The least \<open>t\<close> with \<open>a div (d * 2 ^ t) < 2 ^ 53\<close>: the number of low bits that do not fit
  into the significand of the quotient of \<open>a\<close> by \<open>d\<close>.\<close>

function dropBits :: "int \<Rightarrow> int \<Rightarrow> nat" where
  "dropBits a d = (if d \<le> 0 \<or> a div d < 2 ^ 53 then 0 else Suc (dropBits a (2 * d)))"
  by pat_completeness auto
termination
proof (relation "measure (\<lambda>(a, d). nat (a + 1 - d))")
  show "wf (measure (\<lambda>(a, d). nat (a + 1 - d)))" by simp
next
  fix a d :: int
  assume "\<not> (d \<le> 0 \<or> a div d < 2 ^ 53)"
  then have d: "0 < d" and "2 ^ 53 \<le> a div d" by simp_all
  moreover have "(0::int) < 2 ^ 53" by simp
  ultimately have "0 < a div d" by linarith
  then have "d \<le> a" using d by (simp add: pos_imp_zdiv_pos_iff)
  then show "((a, 2 * d), (a, d)) \<in> measure (\<lambda>(a, d). nat (a + 1 - d))" using d by simp
qed

declare dropBits.simps [simp del]

text \<open>The least \<open>j\<close> with \<open>2 ^ 52 * d \<le> a * 2 ^ j\<close>: the number of bits below the unit that
  the significand of the quotient of \<open>a\<close> by \<open>d\<close> holds.\<close>

function addBits :: "int \<Rightarrow> int \<Rightarrow> nat" where
  "addBits a d = (if a \<le> 0 \<or> 2 ^ 52 * d \<le> a then 0 else Suc (addBits (2 * a) d))"
  by pat_completeness auto
termination
proof (relation "measure (\<lambda>(a, d). nat (2 ^ 52 * d - a))")
  show "wf (measure (\<lambda>(a, d). nat (2 ^ 52 * d - a)))" by simp
next
  fix a d :: int
  assume "\<not> (a \<le> 0 \<or> 2 ^ 52 * d \<le> a)"
  then have "0 < a" and "a < 2 ^ 52 * d" by simp_all
  then have "nat (2 ^ 52 * d - 2 * a) < nat (2 ^ 52 * d - a)" by linarith
  then show "((2 * a, d), (a, d)) \<in> measure (\<lambda>(a, d). nat (2 ^ 52 * d - a))" by simp
qed

declare addBits.simps [simp del]

text \<open>The double nearest to an integer: the result, in the code, of a sum, a difference
  or a product whose exact value is \<open>x\<close>.\<close>

definition toDouble :: "int \<Rightarrow> int" where
  "toDouble x =
     (let a = \<bar>x\<bar>; t = dropBits a 1
      in sgn x * (nearestEven a (2 ^ t) * 2 ^ t))"

text \<open>\<^verbatim>\<open>Math.floor(m / p)\<close> for \<open>p \<noteq> 0\<close>: the quotient is rounded to the nearest double
  first, as a significand of 53 bits times a power of 2, and floored then.\<close>

definition floorQuotient :: "int \<Rightarrow> int \<Rightarrow> int" where
  "floorQuotient m p =
     (let a = \<bar>m\<bar>; d = \<bar>p\<bar>; s = sgn m * sgn p
      in if 2 ^ 53 * d \<le> a then
           (let t = dropBits a d in s * (nearestEven a (d * 2 ^ t) * 2 ^ t))
         else
           (let j = addBits a d in (s * nearestEven (a * 2 ^ j) d) div 2 ^ j))"

subsection \<open>One settlement step in doubles\<close>

text \<open>
  \<^verbatim>\<open>processOrder\<close> as the code computes it: \<open>processOrder\<close> above with every arithmetic
  result rounded. The two definitions differ in nothing else, and they agree on every step
  none of whose results is rounded.
\<close>

definition processOrderDouble :: "int \<Rightarrow> Matcher \<Rightarrow> unit result" where
  "processOrderDouble now this =
     (case hasFoundOverlap this of
        (False, this0) \<Rightarrow> (Inl NoOverlap, this0)
      | (True, this0) \<Rightarrow>
     andThen (getBestBuyOrder this0) (\<lambda>bestBuyOrder this1.
     andThen (getBestSellOrder this1) (\<lambda>bestSellOrder this2.
       let sellingUser = users this2 (account bestSellOrder);
           buyingUser = users this2 (account bestBuyOrder);
           stockDelta0 = min (quantity bestBuyOrder) (quantity bestSellOrder)
       in case sellingUser of
            None \<Rightarrow> (Inl TypeError, this2)
          | Some sellingUser \<Rightarrow>
      (let stockDelta1 =
             (if stock sellingUser < quantity bestSellOrder then stock sellingUser
              else stockDelta0)
       in if stockDelta1 = 0 then (Inr (), this2\<lparr>sellOrders := shift (sellOrders this2)\<rparr>)
          else
       let singleBuyCost = price bestBuyOrder;
           totalBuyCost1 = toDouble (singleBuyCost * stockDelta1)
       in case buyingUser of
            None \<Rightarrow> (Inl TypeError, this2)
          | Some buyingUser \<Rightarrow>
         (if money buyingUser < singleBuyCost then
            (Inr (), this2\<lparr>buyOrders := shift (buyOrders this2)\<rparr>)
          else if money buyingUser < totalBuyCost1 \<and> singleBuyCost = 0 then
            (Inl DivisionByZero, this2)
          else
       let stockDelta =
             (if money buyingUser < totalBuyCost1
              then floorQuotient (money buyingUser) singleBuyCost
              else stockDelta1);
           totalBuyCost =
             (if money buyingUser < totalBuyCost1 then toDouble (singleBuyCost * stockDelta)
              else totalBuyCost1);
           totalSellCost = toDouble (stockDelta * price bestSellOrder);
           overhead = toDouble (totalBuyCost - totalSellCost);
           newBuyerStock = toDouble (stock buyingUser + stockDelta);
           newSellerStock = toDouble (stock sellingUser - stockDelta);
           newBuyerMoney = toDouble (money buyingUser - totalBuyCost);
           newSellerMoney = toDouble (money sellingUser + totalSellCost);
           this3 = this2
             \<lparr>overheadMade := toDouble (overheadMade this2 + overhead),
              users := (users this2)
                (account bestBuyOrder \<mapsto> \<lparr>money = newBuyerMoney, stock = newBuyerStock\<rparr>,
                 account bestSellOrder \<mapsto> \<lparr>money = newSellerMoney, stock = newSellerStock\<rparr>)\<rparr>
       in
       andThen
         (if stockDelta < quantity bestBuyOrder then
            addOrderPreservingTimestamp
              (bestBuyOrder\<lparr>quantity := toDouble (quantity bestBuyOrder - stockDelta)\<rparr>) this3
          else (Inr (), this3)) (\<lambda>_ this4.
       andThen
         (if stockDelta < quantity bestSellOrder then
            addOrderPreservingTimestamp
              (bestSellOrder\<lparr>quantity := toDouble (quantity bestSellOrder - stockDelta)\<rparr>) this4
          else (Inr (), this4)) (\<lambda>_ this5.
       (Inr (), this5
          \<lparr>buyOrders := shift (buyOrders this5),
           sellOrders := shift (sellOrders this5),
           history := history this5 @
             [\<lparr>buyer = account bestBuyOrder, seller = account bestSellOrder,
               buyPrice = price bestBuyOrder, sellPrice = price bestSellOrder,
               tradeQuantity = stockDelta, tradeTime = now\<rparr>]\<rparr>))))))))"

text \<open>
  The exact values of the arithmetic results of a trade between the best bid and the best
  ask, in the order of the code: the cost of the capped quantity, the dividend of the
  budget cap when it is taken, the total buy cost, the sell proceeds, the overhead, the new
  overhead total, the four new balance fields, and the quantities of the remainders.
\<close>

definition stepNumbers :: "Order \<Rightarrow> Order \<Rightarrow> Balance \<Rightarrow> Balance \<Rightarrow> int \<Rightarrow> int list" where
  "stepNumbers bestBuyOrder bestSellOrder buyingUser sellingUser overheadMade0 =
     (let stockDelta1 =
            (if stock sellingUser < quantity bestSellOrder then stock sellingUser
             else min (quantity bestBuyOrder) (quantity bestSellOrder));
          singleBuyCost = price bestBuyOrder;
          totalBuyCost1 = singleBuyCost * stockDelta1;
          capped = money buyingUser < totalBuyCost1;
          stockDelta = (if capped then money buyingUser div singleBuyCost else stockDelta1);
          totalBuyCost = singleBuyCost * stockDelta;
          totalSellCost = stockDelta * price bestSellOrder;
          overhead = totalBuyCost - totalSellCost
      in [totalBuyCost1] @ (if capped then [money buyingUser] else [])
         @ [totalBuyCost, totalSellCost, overhead, overheadMade0 + overhead,
            stock buyingUser + stockDelta, stock sellingUser - stockDelta,
            money buyingUser - totalBuyCost, money sellingUser + totalSellCost]
         @ (if stockDelta < quantity bestBuyOrder
            then [quantity bestBuyOrder - stockDelta] else [])
         @ (if stockDelta < quantity bestSellOrder
            then [quantity bestSellOrder - stockDelta] else []))"

text \<open>No arithmetic result of the step is rounded: when the step trades (the best orders
  overlap, the capped quantity is not 0 and the buyer can pay for one unit), each of the
  results of the trade is a safe integer. The other paths of the step use no arithmetic
  result.\<close>

definition exactStep :: "Matcher \<Rightarrow> bool" where
  "exactStep this =
     (case (fst (getBestBuyOrder this), fst (getBestSellOrder this)) of
        (Inr bestBuyOrder, Inr bestSellOrder) \<Rightarrow>
          (case (users this (account bestBuyOrder), users this (account bestSellOrder)) of
             (Some buyingUser, Some sellingUser) \<Rightarrow>
               (let stockDelta1 =
                      (if stock sellingUser < quantity bestSellOrder then stock sellingUser
                       else min (quantity bestBuyOrder) (quantity bestSellOrder))
                in price bestSellOrder < price bestBuyOrder \<and> stockDelta1 \<noteq> 0
                   \<and> \<not> money buyingUser < price bestBuyOrder \<longrightarrow>
                   list_all isSafeInteger
                     (stepNumbers bestBuyOrder bestSellOrder buyingUser sellingUser
                        (overheadMade this)))
           | _ \<Rightarrow> True)
      | _ \<Rightarrow> True)"


definition bigMoney :: Matcher where
  "bigMoney = performAll
     [AddUser ''A'' 13510798882111490 0, AddUser ''B'' 0 4503599627370508,
      AddOrder 1 (newOrder ''A'' 3 4503599627370508 BUY),
      AddOrder 2 (newOrder ''B'' 1 4503599627370508 SELL)]
     constructor"

section \<open>Properties\<close>

subsection \<open>Sorting\<close>

lemma mset_insertBy: "mset (insertBy c x ys) = add_mset x (mset ys)"
  by (induction ys) auto

lemma mset_sortBy: "mset (sortBy c xs) = mset xs"
  by (induction xs) (auto simp: mset_insertBy)

lemma set_insertBy: "set (insertBy c x ys) = insert x (set ys)"
  by (induction ys) auto

lemma set_sortBy: "set (sortBy c xs) = set xs"
  by (induction xs) (auto simp: set_insertBy)

lemma sortBy_Nil_iff: "sortBy c xs = [] \<longleftrightarrow> xs = []"
  using mset_sortBy [of c xs] by (metis mset_zero_iff)

lemma sorted_insertBy:
  assumes tr: "\<And>a b d. c a b \<le> 0 \<Longrightarrow> c b d \<le> 0 \<Longrightarrow> c a d \<le> 0"
    and tot: "\<And>a b. c a b \<le> 0 \<or> c b a \<le> 0"
  shows "sorted_wrt (\<lambda>a b. c a b \<le> 0) ys \<Longrightarrow> sorted_wrt (\<lambda>a b. c a b \<le> 0) (insertBy c x ys)"
proof (induction ys)
  case Nil
  then show ?case by simp
next
  case (Cons y ys)
  show ?case
  proof (cases "c x y \<le> 0")
    case True
    with Cons.prems show ?thesis using tr by auto
  next
    case False
    then have "c y x \<le> 0" using tot by blast
    with False Cons show ?thesis by (auto simp: set_insertBy)
  qed
qed

lemma sorted_sortBy:
  assumes tr: "\<And>a b d. c a b \<le> 0 \<Longrightarrow> c b d \<le> 0 \<Longrightarrow> c a d \<le> 0"
    and tot: "\<And>a b. c a b \<le> 0 \<or> c b a \<le> 0"
  shows "sorted_wrt (\<lambda>a b. c a b \<le> 0) (sortBy c xs)"
  by (induction xs) (auto intro: sorted_insertBy [OF tr tot])

lemma sortBy_sorted: "sorted_wrt (\<lambda>a b. c a b \<le> 0) xs \<Longrightarrow> sortBy c xs = xs"
proof (induction xs)
  case Nil
  then show ?case by simp
next
  case (Cons x xs)
  then show ?case by (cases xs) auto
qed

lemma buyCompare_le:
  "buyCompare a b \<le> 0 \<longleftrightarrow> price b < price a \<or> (price a = price b \<and> time a \<le> time b)"
  by (auto simp: buyCompare_def)

lemma sellCompare_le:
  "sellCompare a b \<le> 0 \<longleftrightarrow> price a < price b \<or> (price a = price b \<and> time a \<le> time b)"
  by (auto simp: sellCompare_def)

lemma sorted_buy: "sorted_wrt (\<lambda>a b. buyCompare a b \<le> 0) (sortBy buyCompare xs)"
  by (rule sorted_sortBy) (auto simp: buyCompare_le)

lemma sorted_sell: "sorted_wrt (\<lambda>a b. sellCompare a b \<le> 0) (sortBy sellCompare xs)"
  by (rule sorted_sortBy) (auto simp: sellCompare_le)

lemma sortBy_buy_idem [simp]: "sortBy buyCompare (sortBy buyCompare xs) = sortBy buyCompare xs"
  by (rule sortBy_sorted) (rule sorted_buy)

lemma sortBy_sell_idem [simp]: "sortBy sellCompare (sortBy sellCompare xs) = sortBy sellCompare xs"
  by (rule sortBy_sorted) (rule sorted_sell)

lemma sortBy_buy_Cons:
  assumes "sortBy buyCompare xs = b # bs"
  shows "b \<in> set xs" and "mset xs = add_mset b (mset bs)"
    and "\<And>x. x \<in> set xs \<Longrightarrow> price x \<le> price b \<and> (price x = price b \<longrightarrow> time b \<le> time x)"
proof -
  show "b \<in> set xs" using assms set_sortBy [of buyCompare xs] by auto
  show "mset xs = add_mset b (mset bs)" using assms mset_sortBy [of buyCompare xs] by auto
  fix x assume "x \<in> set xs"
  then have "x = b \<or> x \<in> set bs" using assms set_sortBy [of buyCompare xs] by auto
  moreover have "\<forall>y\<in>set bs. buyCompare b y \<le> 0" using sorted_buy [of xs] assms by simp
  ultimately show "price x \<le> price b \<and> (price x = price b \<longrightarrow> time b \<le> time x)"
    by (auto simp: buyCompare_le)
qed

lemma sortBy_sell_Cons:
  assumes "sortBy sellCompare xs = s # ss"
  shows "s \<in> set xs" and "mset xs = add_mset s (mset ss)"
    and "\<And>x. x \<in> set xs \<Longrightarrow> price s \<le> price x \<and> (price x = price s \<longrightarrow> time s \<le> time x)"
proof -
  show "s \<in> set xs" using assms set_sortBy [of sellCompare xs] by auto
  show "mset xs = add_mset s (mset ss)" using assms mset_sortBy [of sellCompare xs] by auto
  fix x assume "x \<in> set xs"
  then have "x = s \<or> x \<in> set ss" using assms set_sortBy [of sellCompare xs] by auto
  moreover have "\<forall>y\<in>set ss. sellCompare s y \<le> 0" using sorted_sell [of xs] assms by simp
  ultimately show "price s \<le> price x \<and> (price x = price s \<longrightarrow> time s \<le> time x)"
    by (auto simp: sellCompare_le)
qed

lemma getBestBuyOrder_Nil: "buyOrders this = [] \<Longrightarrow> getBestBuyOrder this = (Inl NoBuyOrders, this)"
  by (cases this) (simp add: getBestBuyOrder_def)

lemma getBestSellOrder_Nil: "sellOrders this = [] \<Longrightarrow> getBestSellOrder this = (Inl NoSellOrders, this)"
  by (cases this) (simp add: getBestSellOrder_def)

lemma getBestBuyOrder_Cons:
  "sortBy buyCompare (buyOrders this) = b # bs \<Longrightarrow>
   getBestBuyOrder this = (Inr b, this\<lparr>buyOrders := b # bs\<rparr>)"
  by (simp add: getBestBuyOrder_def)

lemma getBestSellOrder_Cons:
  "sortBy sellCompare (sellOrders this) = s # ss \<Longrightarrow>
   getBestSellOrder this = (Inr s, this\<lparr>sellOrders := s # ss\<rparr>)"
  by (simp add: getBestSellOrder_def)

lemma hasFoundOverlap_noBuy:
  "buyOrders this = [] \<Longrightarrow> hasFoundOverlap this = (False, this)"
  by (simp add: hasFoundOverlap_def getBestBuyOrder_Nil)

lemma hasFoundOverlap_noSell:
  "sortBy buyCompare (buyOrders this) = b # bs \<Longrightarrow> sellOrders this = [] \<Longrightarrow>
   hasFoundOverlap this = (False, this\<lparr>buyOrders := b # bs\<rparr>)"
  by (simp add: hasFoundOverlap_def getBestBuyOrder_Cons getBestSellOrder_Nil)

lemma hasFoundOverlap_Cons:
  "sortBy buyCompare (buyOrders this) = b # bs \<Longrightarrow>
   sortBy sellCompare (sellOrders this) = s # ss \<Longrightarrow>
   hasFoundOverlap this = (price s < price b, this\<lparr>buyOrders := b # bs, sellOrders := s # ss\<rparr>)"
  by (simp add: hasFoundOverlap_def getBestBuyOrder_Cons getBestSellOrder_Cons)

lemma sortBy_buy_again: "sortBy buyCompare xs = b # bs \<Longrightarrow> sortBy buyCompare (b # bs) = b # bs"
  using sortBy_buy_idem [of xs] by simp

lemma sortBy_sell_again: "sortBy sellCompare xs = s # ss \<Longrightarrow> sortBy sellCompare (s # ss) = s # ss"
  using sortBy_sell_idem [of xs] by simp

text \<open>The three shapes of the two books after sorting.\<close>

lemma books_cases:
  obtains (noBuy) "buyOrders this = []"
  | (noSell) b bs where "sortBy buyCompare (buyOrders this) = b # bs" "sellOrders this = []"
  | (both) b bs s ss where "sortBy buyCompare (buyOrders this) = b # bs"
      "sortBy sellCompare (sellOrders this) = s # ss"
proof (cases "sortBy buyCompare (buyOrders this)")
  case Nil
  then show ?thesis using noBuy by (simp add: sortBy_Nil_iff)
next
  case (Cons b bs)
  show ?thesis
  proof (cases "sortBy sellCompare (sellOrders this)")
    case Nil
    then show ?thesis using noSell Cons by (simp add: sortBy_Nil_iff)
  next
    case (Cons s ss)
    then show ?thesis using both \<open>sortBy buyCompare (buyOrders this) = b # bs\<close> by blast
  qed
qed

lemma processOrder_noOverlap:
  "\<not> fst (hasFoundOverlap this) \<Longrightarrow> processOrder now this = (Inl NoOverlap, snd (hasFoundOverlap this))"
  by (cases "hasFoundOverlap this") (simp add: processOrder_def)

lemma addOPT_fields [simp]:
  "users (snd (addOrderPreservingTimestamp x this)) = users this"
  "overheadMade (snd (addOrderPreservingTimestamp x this)) = overheadMade this"
  "history (snd (addOrderPreservingTimestamp x this)) = history this"
  by (simp_all add: addOrderPreservingTimestamp_def)


lemma andThen_simps [simp]:
  "andThen (Inl e, t) f = (Inl e, t)"
  "andThen (Inr v, t) f = f v t"
  by (simp_all add: andThen_def)

lemma getBestBuyOrder_sorted:
  assumes "sortBy buyCompare xs = b # bs" and "buyOrders this = b # bs"
  shows "getBestBuyOrder this = (Inr b, this)"
proof -
  have "sortBy buyCompare (buyOrders this) = b # bs"
    using sortBy_buy_again [OF assms(1)] assms(2) by (simp only:)
  then have "getBestBuyOrder this = (Inr b, this\<lparr>buyOrders := b # bs\<rparr>)"
    by (rule getBestBuyOrder_Cons)
  moreover have "this\<lparr>buyOrders := b # bs\<rparr> = this" using assms(2) by (cases this) simp
  ultimately show ?thesis by simp
qed

lemma getBestSellOrder_sorted:
  assumes "sortBy sellCompare xs = s # ss" and "sellOrders this = s # ss"
  shows "getBestSellOrder this = (Inr s, this)"
proof -
  have "sortBy sellCompare (sellOrders this) = s # ss"
    using sortBy_sell_again [OF assms(1)] assms(2) by (simp only:)
  then have "getBestSellOrder this = (Inr s, this\<lparr>sellOrders := s # ss\<rparr>)"
    by (rule getBestSellOrder_Cons)
  moreover have "this\<lparr>sellOrders := s # ss\<rparr> = this" using assms(2) by (cases this) simp
  ultimately show ?thesis by simp
qed

lemma processOrder_cases [case_names noOverlap noSeller evictSell noBuyer evictBuy trade]:
  fixes this :: Matcher and now :: int
  obtains
    "\<not> fst (hasFoundOverlap this)"
      "processOrder now this = (Inl NoOverlap, snd (hasFoundOverlap this))"
  | b bs s ss where
      "sortBy buyCompare (buyOrders this) = b # bs" "sortBy sellCompare (sellOrders this) = s # ss"
      "price s < price b" "users this (account s) = None"
      "processOrder now this = (Inl TypeError, this\<lparr>buyOrders := b # bs, sellOrders := s # ss\<rparr>)"
  | b bs s ss su where
      "sortBy buyCompare (buyOrders this) = b # bs" "sortBy sellCompare (sellOrders this) = s # ss"
      "price s < price b" "users this (account s) = Some su"
      "(if stock su < quantity s then stock su else min (quantity b) (quantity s)) = 0"
      "processOrder now this = (Inr (), this\<lparr>buyOrders := b # bs, sellOrders := ss\<rparr>)"
  | b bs s ss su where
      "sortBy buyCompare (buyOrders this) = b # bs" "sortBy sellCompare (sellOrders this) = s # ss"
      "price s < price b" "users this (account s) = Some su"
      "(if stock su < quantity s then stock su else min (quantity b) (quantity s)) \<noteq> 0"
      "users this (account b) = None"
      "processOrder now this = (Inl TypeError, this\<lparr>buyOrders := b # bs, sellOrders := s # ss\<rparr>)"
  | b bs s ss su bu where
      "sortBy buyCompare (buyOrders this) = b # bs" "sortBy sellCompare (sellOrders this) = s # ss"
      "price s < price b" "users this (account s) = Some su"
      "(if stock su < quantity s then stock su else min (quantity b) (quantity s)) \<noteq> 0"
      "users this (account b) = Some bu" "money bu < price b"
      "processOrder now this = (Inr (), this\<lparr>buyOrders := bs, sellOrders := s # ss\<rparr>)"
  | b bs s ss su bu d1 d this3 where
      "sortBy buyCompare (buyOrders this) = b # bs" "sortBy sellCompare (sellOrders this) = s # ss"
      "price s < price b" "users this (account s) = Some su"
      "d1 = (if stock su < quantity s then stock su else min (quantity b) (quantity s))"
      "d1 \<noteq> 0"
      "users this (account b) = Some bu" "price b \<le> money bu"
      "d = (if money bu < price b * d1 then money bu div price b else d1)"
      "this3 = this\<lparr>buyOrders := b # bs, sellOrders := s # ss,
         overheadMade := overheadMade this + (price b * d - d * price s),
         users := (users this)
           (account b \<mapsto> \<lparr>money = money bu - price b * d, stock = stock bu + d\<rparr>,
            account s \<mapsto> \<lparr>money = money su + d * price s, stock = stock su - d\<rparr>)\<rparr>"
      "processOrder now this =
         andThen
           (if d < quantity b then
              addOrderPreservingTimestamp (b\<lparr>quantity := quantity b - d\<rparr>) this3
            else (Inr (), this3)) (\<lambda>_ this4.
         andThen
           (if d < quantity s then
              addOrderPreservingTimestamp (s\<lparr>quantity := quantity s - d\<rparr>) this4
            else (Inr (), this4)) (\<lambda>_ this5.
         (Inr (), this5
            \<lparr>buyOrders := shift (buyOrders this5),
             sellOrders := shift (sellOrders this5),
             history := history this5 @
               [\<lparr>buyer = account b, seller = account s,
                 buyPrice = price b, sellPrice = price s,
                 tradeQuantity = d, tradeTime = now\<rparr>]\<rparr>)))"
proof (cases this rule: books_cases)
  case noBuy
  then have "\<not> fst (hasFoundOverlap this)" by (simp add: hasFoundOverlap_noBuy)
  then show ?thesis using that(1) processOrder_noOverlap by blast
next
  case (noSell b bs)
  then have "\<not> fst (hasFoundOverlap this)" by (simp add: hasFoundOverlap_noSell)
  then show ?thesis using that(1) processOrder_noOverlap by blast
next
  case (both b bs s ss)
  note hfo = hasFoundOverlap_Cons [OF both]
  show ?thesis
  proof (cases "price s < price b")
    case False
    then have "\<not> fst (hasFoundOverlap this)" by (simp add: hfo)
    then show ?thesis using that(1) processOrder_noOverlap by blast
  next
    case True
    have g1: "getBestBuyOrder (this\<lparr>buyOrders := b # bs, sellOrders := s # ss\<rparr>)
        = (Inr b, this\<lparr>buyOrders := b # bs, sellOrders := s # ss\<rparr>)"
      by (rule getBestBuyOrder_sorted [OF both(1)]) simp
    have g2: "getBestSellOrder (this\<lparr>buyOrders := b # bs, sellOrders := s # ss\<rparr>)
        = (Inr s, this\<lparr>buyOrders := b # bs, sellOrders := s # ss\<rparr>)"
      by (rule getBestSellOrder_sorted [OF both(2)]) simp
    note unfold = processOrder_def hfo True g1 g2 Let_def
    show ?thesis
    proof (cases "users this (account s)")
      case None
      then have "processOrder now this = (Inl TypeError, this\<lparr>buyOrders := b # bs, sellOrders := s # ss\<rparr>)"
        by (simp add: unfold)
      then show ?thesis using that(2) both True None by blast
    next
      case (Some su)
      define d1 where "d1 = (if stock su < quantity s then stock su else min (quantity b) (quantity s))"
      have eq1: "(if stock su < quantity s then stock su else min (quantity b) (quantity s)) = d1"
        by (simp add: d1_def)
      show ?thesis
      proof (cases "d1 = 0")
        case d0: True
        then have "processOrder now this = (Inr (), this\<lparr>buyOrders := b # bs, sellOrders := ss\<rparr>)"
          using Some by (simp add: unfold eq1 split del: if_split)
        then show ?thesis using that(3) both True Some d0 unfolding d1_def by blast
      next
        case dn: False
        show ?thesis
        proof (cases "users this (account b)")
          case None
          then have "processOrder now this = (Inl TypeError, this\<lparr>buyOrders := b # bs, sellOrders := s # ss\<rparr>)"
            using dn Some by (simp add: unfold eq1 split del: if_split)
          then show ?thesis using that(4) both True Some dn None unfolding d1_def by blast
        next
          case bu: (Some bu)
          show ?thesis
          proof (cases "money bu < price b")
            case poor: True
            then have "processOrder now this = (Inr (), this\<lparr>buyOrders := bs, sellOrders := s # ss\<rparr>)"
              using dn Some bu by (simp add: unfold eq1 split del: if_split)
            then show ?thesis using that(5) both True Some dn bu poor unfolding d1_def by blast
          next
            case rich: False
            define d where "d = (if money bu < price b * d1 then money bu div price b else d1)"
            have nz: "\<not> (money bu < price b * d1 \<and> price b = 0)" using rich by auto
            have "processOrder now this =
         andThen
           (if d < quantity b then
              addOrderPreservingTimestamp (b\<lparr>quantity := quantity b - d\<rparr>) (this\<lparr>buyOrders := b # bs, sellOrders := s # ss,
         overheadMade := overheadMade this + (price b * d - d * price s),
         users := (users this)
           (account b \<mapsto> \<lparr>money = money bu - price b * d, stock = stock bu + d\<rparr>,
            account s \<mapsto> \<lparr>money = money su + d * price s, stock = stock su - d\<rparr>)\<rparr>)
            else (Inr (), (this\<lparr>buyOrders := b # bs, sellOrders := s # ss,
         overheadMade := overheadMade this + (price b * d - d * price s),
         users := (users this)
           (account b \<mapsto> \<lparr>money = money bu - price b * d, stock = stock bu + d\<rparr>,
            account s \<mapsto> \<lparr>money = money su + d * price s, stock = stock su - d\<rparr>)\<rparr>))) (\<lambda>_ this4.
         andThen
           (if d < quantity s then
              addOrderPreservingTimestamp (s\<lparr>quantity := quantity s - d\<rparr>) this4
            else (Inr (), this4)) (\<lambda>_ this5.
         (Inr (), this5
            \<lparr>buyOrders := shift (buyOrders this5),
             sellOrders := shift (sellOrders this5),
             history := history this5 @
               [\<lparr>buyer = account b, seller = account s,
                 buyPrice = price b, sellPrice = price s,
                 tradeQuantity = d, tradeTime = now\<rparr>]\<rparr>)))"
            proof (cases "money bu < price b * d1")
              case c: True
              then have "price b \<noteq> 0" using nz by simp
              moreover have dv: "d = money bu div price b" using c by (simp add: d_def)
              ultimately show ?thesis using dn Some bu rich c unfolding dv
                by (simp add: unfold eq1 split del: if_split)
            next
              case c: False
              then have dv: "d = d1" by (simp add: d_def)
              show ?thesis using dn Some bu rich c unfolding dv
                by (simp add: unfold eq1 split del: if_split)
            qed
            then show ?thesis using that(6) [OF both True Some d1_def dn bu _ d_def refl] rich by simp
          qed
        qed
      qed
    qed
  qed
qed

lemma hasFoundOverlap_frame:
  "users (snd (hasFoundOverlap this)) = users this
   \<and> overheadMade (snd (hasFoundOverlap this)) = overheadMade this
   \<and> history (snd (hasFoundOverlap this)) = history this
   \<and> mset (buyOrders (snd (hasFoundOverlap this))) = mset (buyOrders this)
   \<and> mset (sellOrders (snd (hasFoundOverlap this))) = mset (sellOrders this)"
proof (cases this rule: books_cases)
  case noBuy
  then show ?thesis by (simp add: hasFoundOverlap_noBuy)
next
  case (noSell b bs)
  have "mset (b # bs) = mset (buyOrders this)"
    using noSell(1) mset_sortBy [of buyCompare "buyOrders this"] by simp
  then show ?thesis using noSell by (simp add: hasFoundOverlap_noSell)
next
  case (both b bs s ss)
  have "mset (b # bs) = mset (buyOrders this)"
    using both(1) mset_sortBy [of buyCompare "buyOrders this"] by simp
  moreover have "mset (s # ss) = mset (sellOrders this)"
    using both(2) mset_sortBy [of sellCompare "sellOrders this"] by simp
  ultimately show ?thesis by (simp add: hasFoundOverlap_Cons [OF both])
qed


lemma set_shift: "set (shift xs) \<subseteq> set xs"
  by (cases xs) auto

lemma tail_fields:
  fixes t3 :: Matcher and c1 c2 :: bool and b' s' :: Order and e :: HistoryEntry
  defines "T \<equiv> andThen (if c1 then addOrderPreservingTimestamp b' t3 else (Inr (), t3)) (\<lambda>_ t4.
      andThen (if c2 then addOrderPreservingTimestamp s' t4 else (Inr (), t4)) (\<lambda>_ t5.
        (Inr (), t5\<lparr>buyOrders := shift (buyOrders t5), sellOrders := shift (sellOrders t5),
                     history := history t5 @ [e]\<rparr>)))"
  shows "users (snd T) = users t3" and "overheadMade (snd T) = overheadMade t3"
    and "fst T \<noteq> Inl DivisionByZero"
    and "set (buyOrders (snd T)) \<union> set (sellOrders (snd T))
          \<subseteq> set (buyOrders t3) \<union> set (sellOrders t3) \<union> (if c1 then {b'} else {}) \<union> (if c2 then {s'} else {})"
proof -
  show "users (snd T) = users t3" "overheadMade (snd T) = overheadMade t3" "fst T \<noteq> Inl DivisionByZero"
    by (simp_all add: T_def addOrderPreservingTimestamp_def)
  have sub: "\<And>xs ys (z::Order) A. set xs \<subseteq> A \<Longrightarrow> set (shift (xs @ [z])) \<subseteq> insert z A"
    "\<And>xs (A:: Order set). set xs \<subseteq> A \<Longrightarrow> set (shift xs) \<subseteq> A"
    using set_shift by fastforce+
  show "set (buyOrders (snd T)) \<union> set (sellOrders (snd T))
          \<subseteq> set (buyOrders t3) \<union> set (sellOrders t3) \<union> (if c1 then {b'} else {}) \<union> (if c2 then {s'} else {})"
    using set_shift [of "buyOrders t3"] set_shift [of "sellOrders t3"]
      set_shift [of "buyOrders t3 @ [b']"] set_shift [of "sellOrders t3 @ [b']"]
      set_shift [of "buyOrders t3 @ [s']"] set_shift [of "sellOrders t3 @ [s']"]
      set_shift [of "buyOrders t3 @ [b', s']"] set_shift [of "sellOrders t3 @ [b', s']"]
    by (auto simp add: T_def addOrderPreservingTimestamp_def)
qed

lemma tail_wellFormed:
  fixes t3 :: Matcher
  assumes "c1 \<Longrightarrow> quantity b' \<noteq> 0 \<and> action b' = BUY"
      and "c2 \<Longrightarrow> quantity s' \<noteq> 0 \<and> action s' = SELL"
  shows "andThen (if c1 then addOrderPreservingTimestamp b' t3 else (Inr (), t3)) (\<lambda>_ t4.
      andThen (if c2 then addOrderPreservingTimestamp s' t4 else (Inr (), t4)) (\<lambda>_ t5.
        (Inr (), t5\<lparr>buyOrders := shift (buyOrders t5), sellOrders := shift (sellOrders t5),
                     history := history t5 @ [e]\<rparr>)))
    = (Inr (), t3\<lparr>buyOrders := shift (buyOrders t3 @ (if c1 then [b'] else [])),
                   sellOrders := shift (sellOrders t3 @ (if c2 then [s'] else [])),
                   history := history t3 @ [e]\<rparr>)"
  using assms by (simp add: addOrderPreservingTimestamp_def BUY_def SELL_def)


subsection \<open>Evaluating the engines of the scenarios\<close>

lemmas engine_simps =
  addUser_def addOrder_def addOrderPreservingTimestamp_def newOrder_def constructor_def
  BUY_def SELL_def getBestBuyOrder_def getBestSellOrder_def hasFoundOverlap_def
  buyCompare_def sellCompare_def

subsection \<open>The budget cap\<close>

text \<open>
  Claim C10. In an engine whose booked prices are all non-negative, the quotient
  \<^verbatim>\<open>Math.floor(buyingUser.money / singleBuyCost)\<close> of \<^verbatim>\<open>processOrder\<close> never has the divisor 0:
  the step never ends in \<open>DivisionByZero\<close>, and when the overlap check holds, the best bid
  and the best ask exist with \<open>0 \<le> price s < price b\<close>, so the divisor \<open>price b\<close> is at
  least 1.
\<close>

theorem budget_cap_never_divides_by_zero:
  "pricesNonNegative this \<Longrightarrow>
     fst (processOrder now this) \<noteq> Inl DivisionByZero
     \<and> (fst (hasFoundOverlap this) \<longrightarrow>
          (\<exists>b s. fst (getBestBuyOrder this) = Inr b \<and> fst (getBestSellOrder this) = Inr s
             \<and> 0 \<le> price s \<and> price s < price b \<and> 1 \<le> price b))"
proof
  assume nonneg: "pricesNonNegative this"
  show "fst (processOrder now this) \<noteq> Inl DivisionByZero"
  proof (cases rule: processOrder_cases [of this now])
    case (trade b bs s ss su bu d1 d this3)
    show ?thesis unfolding trade(11) by (rule tail_fields(3))
  qed simp_all
  show "fst (hasFoundOverlap this) \<longrightarrow>
          (\<exists>b s. fst (getBestBuyOrder this) = Inr b \<and> fst (getBestSellOrder this) = Inr s
             \<and> 0 \<le> price s \<and> price s < price b \<and> 1 \<le> price b)"
  proof
    assume ov: "fst (hasFoundOverlap this)"
    show "\<exists>b s. fst (getBestBuyOrder this) = Inr b \<and> fst (getBestSellOrder this) = Inr s
             \<and> 0 \<le> price s \<and> price s < price b \<and> 1 \<le> price b"
    proof (cases this rule: books_cases)
      case noBuy
      then show ?thesis using ov by (simp add: hasFoundOverlap_noBuy)
    next
      case (noSell b bs)
      then show ?thesis using ov by (simp add: hasFoundOverlap_noSell)
    next
      case (both b bs s ss)
      have lt: "price s < price b" using ov by (simp add: hasFoundOverlap_Cons [OF both])
      have "s \<in> set (sellOrders this)" using both(2) by (rule sortBy_sell_Cons(1))
      then have "0 \<le> price s" using nonneg by (simp add: pricesNonNegative_def)
      then show ?thesis using lt
        by (simp add: getBestBuyOrder_Cons [OF both(1)] getBestSellOrder_Cons [OF both(2)])
    qed
  qed
qed

theorem budget_cap_never_divides_by_zero_witness:
  "pricesNonNegative scenarioC \<and> fst (hasFoundOverlap scenarioC)
   \<and> fst (processOrder 3 scenarioC) \<noteq> Inl DivisionByZero
   \<and> (\<exists>b s. fst (getBestBuyOrder scenarioC) = Inr b \<and> fst (getBestSellOrder scenarioC) = Inr s
             \<and> 0 \<le> price s \<and> price s < price b \<and> 1 \<le> price b)"
proof -
  have h1: "pricesNonNegative scenarioC"
    by (simp add: pricesNonNegative_def scenarioC_def engine_simps)
  have h2: "fst (hasFoundOverlap scenarioC)"
    by (simp add: scenarioC_def engine_simps)
  show ?thesis using budget_cap_never_divides_by_zero [OF h1, of 3] h1 h2 by blast
qed

subsection \<open>Overlap detection\<close>

lemma Max_price_sorted:
  assumes "sortBy buyCompare xs = b # bs"
  shows "Max (price ` set xs) = price b"
proof (rule Max_eqI)
  show "finite (price ` set xs)" by simp
  show "price b \<in> price ` set xs" using sortBy_buy_Cons(1) [OF assms] by simp
  fix y assume "y \<in> price ` set xs"
  then show "y \<le> price b" using sortBy_buy_Cons(3) [OF assms] by auto
qed

lemma Min_price_sorted:
  assumes "sortBy sellCompare xs = s # ss"
  shows "Min (price ` set xs) = price s"
proof (rule Min_eqI)
  show "finite (price ` set xs)" by simp
  show "price s \<in> price ` set xs" using sortBy_sell_Cons(1) [OF assms] by simp
  fix y assume "y \<in> price ` set xs"
  then show "price s \<le> y" using sortBy_sell_Cons(3) [OF assms] by auto
qed

text \<open>
  Claim C3. \<^verbatim>\<open>hasFoundOverlap\<close> returns a boolean in every engine state, and it returns
  true exactly when both books are non-empty and the price of the best bid is strictly
  greater than the price of the best ask: the best orders as the two queries return them,
  and equally the greatest booked bid price against the least booked ask price. Equal best
  prices and an empty book give false.
\<close>

theorem hasFoundOverlap_iff:
  "fst (hasFoundOverlap this) =
     (buyOrders this \<noteq> [] \<and> sellOrders this \<noteq> []
      \<and> (\<exists>b s. fst (getBestBuyOrder this) = Inr b \<and> fst (getBestSellOrder this) = Inr s
            \<and> price s < price b))
   \<and> fst (hasFoundOverlap this) =
     (buyOrders this \<noteq> [] \<and> sellOrders this \<noteq> []
      \<and> Min (price ` set (sellOrders this)) < Max (price ` set (buyOrders this)))"
proof (cases this rule: books_cases)
  case noBuy
  then show ?thesis by (simp add: hasFoundOverlap_noBuy)
next
  case (noSell b bs)
  then show ?thesis by (simp add: hasFoundOverlap_noSell)
next
  case (both b bs s ss)
  have ne: "buyOrders this \<noteq> []" "sellOrders this \<noteq> []"
    using both sortBy_Nil_iff [of buyCompare "buyOrders this"]
      sortBy_Nil_iff [of sellCompare "sellOrders this"] by auto
  show ?thesis
    by (simp add: hasFoundOverlap_Cons [OF both] ne getBestBuyOrder_Cons [OF both(1)]
        getBestSellOrder_Cons [OF both(2)] Max_price_sorted [OF both(1)]
        Min_price_sorted [OF both(2)])
qed

theorem hasFoundOverlap_iff_witness:
  "\<not> fst (hasFoundOverlap tiedBooks) \<and> buyOrders tiedBooks \<noteq> [] \<and> sellOrders tiedBooks \<noteq> []
   \<and> Min (price ` set (sellOrders tiedBooks)) = 1300
   \<and> Max (price ` set (buyOrders tiedBooks)) = 1300
   \<and> fst (hasFoundOverlap scenarioA)"
proof -
  have "Min (price ` set (sellOrders scenarioA)) < Max (price ` set (buyOrders scenarioA))"
    by (simp add: scenarioA_def engine_simps)
  moreover have "buyOrders scenarioA \<noteq> [] \<and> sellOrders scenarioA \<noteq> []"
    by (simp add: scenarioA_def engine_simps)
  moreover have "Min (price ` set (sellOrders tiedBooks)) = 1300 \<and> Max (price ` set (buyOrders tiedBooks)) = 1300
    \<and> buyOrders tiedBooks \<noteq> [] \<and> sellOrders tiedBooks \<noteq> []"
    by (simp add: tiedBooks_def engine_simps)
  ultimately show ?thesis
    using hasFoundOverlap_iff [of tiedBooks, THEN conjunct2]
      hasFoundOverlap_iff [of scenarioA, THEN conjunct2] by simp
qed

subsection \<open>Best-order selection\<close>

text \<open>
  Claim C4. On a non-empty bid book \<^verbatim>\<open>getBestBuyOrder\<close> returns a booked bid whose price is
  maximal among the booked bids and whose arrival time is the earliest among the bids of
  that price; on a non-empty ask book \<^verbatim>\<open>getBestSellOrder\<close> returns a booked ask whose price
  is minimal and whose arrival time is the earliest among the asks of that price.
\<close>

theorem best_order_selection:
  "(buyOrders this \<noteq> [] \<longrightarrow>
      (\<exists>b. fst (getBestBuyOrder this) = Inr b \<and> b \<in> set (buyOrders this)
         \<and> (\<forall>x\<in>set (buyOrders this).
               price x \<le> price b \<and> (price x = price b \<longrightarrow> time b \<le> time x))))
   \<and> (sellOrders this \<noteq> [] \<longrightarrow>
      (\<exists>s. fst (getBestSellOrder this) = Inr s \<and> s \<in> set (sellOrders this)
         \<and> (\<forall>x\<in>set (sellOrders this).
               price s \<le> price x \<and> (price x = price s \<longrightarrow> time s \<le> time x))))"
proof (intro conjI impI)
  assume "buyOrders this \<noteq> []"
  then obtain b bs where *: "sortBy buyCompare (buyOrders this) = b # bs"
    by (cases "sortBy buyCompare (buyOrders this)") (simp_all add: sortBy_Nil_iff)
  show "\<exists>b. fst (getBestBuyOrder this) = Inr b \<and> b \<in> set (buyOrders this)
         \<and> (\<forall>x\<in>set (buyOrders this).
               price x \<le> price b \<and> (price x = price b \<longrightarrow> time b \<le> time x))"
    using sortBy_buy_Cons(1,3) [OF *] by (simp add: getBestBuyOrder_Cons [OF *])
next
  assume "sellOrders this \<noteq> []"
  then obtain s ss where *: "sortBy sellCompare (sellOrders this) = s # ss"
    by (cases "sortBy sellCompare (sellOrders this)") (simp_all add: sortBy_Nil_iff)
  show "\<exists>s. fst (getBestSellOrder this) = Inr s \<and> s \<in> set (sellOrders this)
         \<and> (\<forall>x\<in>set (sellOrders this).
               price s \<le> price x \<and> (price x = price s \<longrightarrow> time s \<le> time x))"
    using sortBy_sell_Cons(1,3) [OF *] by (simp add: getBestSellOrder_Cons [OF *])
qed

theorem best_order_selection_witness:
  "buyOrders tiedBooks \<noteq> [] \<and> sellOrders tiedBooks \<noteq> []
   \<and> fst (getBestBuyOrder tiedBooks) = Inr (newOrder ''B'' 1300 10 BUY\<lparr>time := 2\<rparr>)
   \<and> fst (getBestSellOrder tiedBooks) = Inr (newOrder ''A'' 1300 3 SELL\<lparr>time := 5\<rparr>)
   \<and> (\<exists>b. fst (getBestBuyOrder tiedBooks) = Inr b \<and> b \<in> set (buyOrders tiedBooks)
         \<and> (\<forall>x\<in>set (buyOrders tiedBooks).
               price x \<le> price b \<and> (price x = price b \<longrightarrow> time b \<le> time x)))
   \<and> (\<exists>s. fst (getBestSellOrder tiedBooks) = Inr s \<and> s \<in> set (sellOrders tiedBooks)
         \<and> (\<forall>x\<in>set (sellOrders tiedBooks).
               price s \<le> price x \<and> (price x = price s \<longrightarrow> time s \<le> time x)))"
proof -
  have ne: "buyOrders tiedBooks \<noteq> []" "sellOrders tiedBooks \<noteq> []"
    by (simp_all add: tiedBooks_def engine_simps)
  have "fst (getBestBuyOrder tiedBooks) = Inr (newOrder ''B'' 1300 10 BUY\<lparr>time := 2\<rparr>)"
    "fst (getBestSellOrder tiedBooks) = Inr (newOrder ''A'' 1300 3 SELL\<lparr>time := 5\<rparr>)"
    by (simp_all add: tiedBooks_def engine_simps)
  then show ?thesis using best_order_selection [of tiedBooks] ne by blast
qed

subsection \<open>Failures\<close>

text \<open>
  Claim C7. When \<^verbatim>\<open>hasFoundOverlap\<close> is false, \<^verbatim>\<open>processOrder\<close> throws the no-overlap error
  and leaves the engine as the overlap check itself leaves it: the balances, the overhead
  total and the history are unchanged, and each book holds the same orders (a book is an
  unordered collection; the check has sorted its array in place). And when \<^verbatim>\<open>addOrder\<close>
  throws, the engine is unchanged.
\<close>

theorem failures_leave_state_unchanged:
  "(\<not> fst (hasFoundOverlap this) \<longrightarrow>
      fst (processOrder now this) = Inl NoOverlap
      \<and> snd (processOrder now this) = snd (hasFoundOverlap this)
      \<and> mset (buyOrders (snd (processOrder now this))) = mset (buyOrders this)
      \<and> mset (sellOrders (snd (processOrder now this))) = mset (sellOrders this)
      \<and> users (snd (processOrder now this)) = users this
      \<and> overheadMade (snd (processOrder now this)) = overheadMade this
      \<and> history (snd (processOrder now this)) = history this)
   \<and> (fst (addOrder now' order this) = Inl e \<longrightarrow> snd (addOrder now' order this) = this)"
proof (intro conjI impI)
  assume "fst (addOrder now' order this) = Inl e"
  then show "snd (addOrder now' order this) = this"
    by (simp add: addOrder_def addOrderPreservingTimestamp_def split: if_splits)
qed (simp_all add: processOrder_noOverlap hasFoundOverlap_frame)

theorem failures_leave_state_unchanged_witness:
  "\<not> fst (hasFoundOverlap tiedBooks)
   \<and> fst (processOrder 7 tiedBooks) = Inl NoOverlap
   \<and> mset (buyOrders (snd (processOrder 7 tiedBooks))) = mset (buyOrders tiedBooks)
   \<and> mset (sellOrders (snd (processOrder 7 tiedBooks))) = mset (sellOrders tiedBooks)
   \<and> users (snd (processOrder 7 tiedBooks)) = users tiedBooks
   \<and> overheadMade (snd (processOrder 7 tiedBooks)) = overheadMade tiedBooks
   \<and> history (snd (processOrder 7 tiedBooks)) = history tiedBooks
   \<and> fst (addOrder 7 (newOrder ''A'' 1500 0 BUY) tiedBooks) = Inl ZeroQuantity
   \<and> snd (addOrder 7 (newOrder ''A'' 1500 0 BUY) tiedBooks) = tiedBooks"
proof -
  have h1: "\<not> fst (hasFoundOverlap tiedBooks)"
    by (simp add: tiedBooks_def engine_simps)
  have h2: "fst (addOrder 7 (newOrder ''A'' 1500 0 BUY) tiedBooks) = Inl ZeroQuantity"
    by (simp add: addOrder_def addOrderPreservingTimestamp_def newOrder_def)
  show ?thesis
    using failures_leave_state_unchanged
      [of tiedBooks 7 7 "newOrder ''A'' 1500 0 BUY" ZeroQuantity] h1 h2
    by blast
qed

subsection \<open>Eviction of an ask that cannot be filled\<close>

text \<open>
  Claim C8. In an engine with an overlap whose best ask belongs to an account such that the
  quantity capped by the seller's stock is 0 (a seller with no stock, for one),
  \<^verbatim>\<open>processOrder\<close> returns normally, removes that best ask from the ask book, and leaves
  the orders of the bid book, every balance, the overhead total and the history unchanged:
  no trade is made and no history entry is appended.
\<close>

theorem unfulfillable_seller_evicted:
  assumes "fst (hasFoundOverlap this)"
      and "fst (getBestBuyOrder this) = Inr b"
      and "fst (getBestSellOrder this) = Inr s"
      and "users this (account s) = Some su"
      and "(if stock su < quantity s then stock su else min (quantity b) (quantity s)) = 0"
  shows "fst (processOrder now this) = Inr ()
      \<and> sellOrders (snd (processOrder now this)) = shift (sortBy sellCompare (sellOrders this))
      \<and> mset (sellOrders (snd (processOrder now this))) = mset (sellOrders this) - {#s#}
      \<and> mset (buyOrders (snd (processOrder now this))) = mset (buyOrders this)
      \<and> users (snd (processOrder now this)) = users this
      \<and> overheadMade (snd (processOrder now this)) = overheadMade this
      \<and> history (snd (processOrder now this)) = history this"
proof (cases this rule: books_cases)
  case noBuy
  then show ?thesis using assms(1) by (simp add: hasFoundOverlap_noBuy)
next
  case (noSell b' bs)
  then show ?thesis using assms(1) by (simp add: hasFoundOverlap_noSell)
next
  case (both b' bs s' ss)
  have b: "b' = b" using assms(2) by (simp add: getBestBuyOrder_Cons [OF both(1)])
  have s: "s' = s" using assms(3) by (simp add: getBestSellOrder_Cons [OF both(2)])
  note sorted = both [unfolded b s]
  have lt: "price s < price b" using assms(1) by (simp add: hasFoundOverlap_Cons [OF sorted])
  have ms: "mset (sellOrders this) = add_mset s (mset ss)" by (rule sortBy_sell_Cons(2) [OF sorted(2)])
  have mb: "mset (buyOrders this) = mset (b # bs)"
    using mset_sortBy [of buyCompare "buyOrders this"] sorted(1) by simp
  have "processOrder now this = (Inr (), this\<lparr>buyOrders := b # bs, sellOrders := ss\<rparr>)"
    using assms(1,4,5) lt sorted by (cases rule: processOrder_cases [of this now]) auto
  then show ?thesis using ms mb sorted by simp
qed

theorem unfulfillable_seller_evicted_witness:
  "fst (hasFoundOverlap scenarioD)
   \<and> fst (getBestBuyOrder scenarioD) = Inr (newOrder ''A'' 1500 5 BUY\<lparr>time := 1\<rparr>)
   \<and> fst (getBestSellOrder scenarioD) = Inr (newOrder ''C'' 100 1 SELL\<lparr>time := 2\<rparr>)
   \<and> users scenarioD ''C'' = Some \<lparr>money = 43000, stock = 0\<rparr>
   \<and> fst (processOrder 4 scenarioD) = Inr ()
   \<and> mset (sellOrders (snd (processOrder 4 scenarioD)))
       = mset (sellOrders scenarioD) - {#newOrder ''C'' 100 1 SELL\<lparr>time := 2\<rparr>#}
   \<and> mset (buyOrders (snd (processOrder 4 scenarioD))) = mset (buyOrders scenarioD)
   \<and> users (snd (processOrder 4 scenarioD)) = users scenarioD
   \<and> overheadMade (snd (processOrder 4 scenarioD)) = overheadMade scenarioD
   \<and> history (snd (processOrder 4 scenarioD)) = history scenarioD"
proof -
  have h1: "fst (hasFoundOverlap scenarioD)"
    by (simp add: scenarioD_def engine_simps)
  have h2: "fst (getBestBuyOrder scenarioD) = Inr (newOrder ''A'' 1500 5 BUY\<lparr>time := 1\<rparr>)"
    by (simp add: scenarioD_def engine_simps)
  have h3: "fst (getBestSellOrder scenarioD) = Inr (newOrder ''C'' 100 1 SELL\<lparr>time := 2\<rparr>)"
    by (simp add: scenarioD_def engine_simps)
  have h4: "users scenarioD (account (newOrder ''C'' 100 1 SELL\<lparr>time := 2\<rparr>))
      = Some \<lparr>money = 43000, stock = 0\<rparr>"
    by (simp add: scenarioD_def engine_simps)
  have h5: "(if stock \<lparr>money = 43000, stock = 0\<rparr> < quantity (newOrder ''C'' 100 1 SELL\<lparr>time := 2\<rparr>)
      then stock \<lparr>money = 43000, stock = 0\<rparr>
      else min (quantity (newOrder ''A'' 1500 5 BUY\<lparr>time := 1\<rparr>))
               (quantity (newOrder ''C'' 100 1 SELL\<lparr>time := 2\<rparr>))) = 0"
    by (simp add: newOrder_def)
  have "users scenarioD ''C'' = Some \<lparr>money = 43000, stock = 0\<rparr>"
    using h4 by (simp add: newOrder_def)
  then show ?thesis using unfulfillable_seller_evicted [OF h1 h2 h3 h4 h5, of 4] h1 h2 h3 by blast
qed

subsection \<open>Double arithmetic on safe integers\<close>

text \<open>A safe integer is not rounded, and the floored quotient of a safe integer is the
  exact floor quotient: the rounding error of the quotient \<open>m / p\<close> is less than \<open>1 / \<bar>p\<bar>\<close>,
  the least distance from a quotient that is not an integer to an integer.\<close>

lemma toDouble_exact: "isSafeInteger x \<Longrightarrow> toDouble x = x"
proof -
  assume "isSafeInteger x"
  then have "\<bar>x\<bar> < 2 ^ 53" by (simp add: isSafeInteger_def)
  then have "dropBits \<bar>x\<bar> 1 = 0" by (simp add: dropBits.simps [of "\<bar>x\<bar>" 1])
  then show ?thesis by (simp add: toDouble_def nearestEven_def Let_def mult_sgn_abs)
qed

lemma addBits_spec:
  "0 < a \<Longrightarrow> 0 < d \<Longrightarrow>
     2 ^ 52 * d \<le> a * 2 ^ addBits a d
     \<and> (addBits a d = 0 \<or> a * 2 ^ addBits a d < 2 ^ 53 * d)"
proof (induction a d rule: addBits.induct)
  case (1 a d)
  show ?case
  proof (cases "2 ^ 52 * d \<le> a")
    case True
    then show ?thesis by (simp add: addBits.simps [of a d])
  next
    case False
    then have rec: "addBits a d = Suc (addBits (2 * a) d)"
      using "1.prems" by (simp add: addBits.simps [of a d])
    have ih: "2 ^ 52 * d \<le> (2 * a) * 2 ^ addBits (2 * a) d
      \<and> (addBits (2 * a) d = 0 \<or> (2 * a) * 2 ^ addBits (2 * a) d < 2 ^ 53 * d)"
      using "1.IH" "1.prems" False by simp
    show ?thesis
    proof (cases "addBits (2 * a) d = 0")
      case True
      then show ?thesis using ih False rec by simp
    next
      case nz: False
      then show ?thesis using ih rec by (simp add: mult.assoc)
    qed
  qed
qed

lemma nearestEven_cases:
  assumes "0 < d" "0 \<le> n"
  shows "(nearestEven n d = n div d \<and> 2 * (n mod d) \<le> d)
       \<or> (nearestEven n d = n div d + 1 \<and> d \<le> 2 * (n mod d))"
  by (auto simp: nearestEven_def Let_def)

lemma no_close_multiple:
  fixes a d c :: int and j :: nat
  assumes "a < 2 ^ 53" "0 < d" "2 ^ 52 * d \<le> a * 2 ^ j"
      and "c * 2 ^ j * d \<noteq> a * 2 ^ j"
  shows "d < 2 * \<bar>c * 2 ^ j * d - a * 2 ^ j\<bar>"
proof -
  have "2 ^ 52 * d < 2 ^ 53 * (2 ^ j :: int)"
  proof -
    have "a * 2 ^ j < 2 ^ 53 * (2 ^ j :: int)" using assms(1) by simp
    then show ?thesis using assms(3) by linarith
  qed
  then have dlt: "d < 2 * 2 ^ j" by simp
  have "c * d \<noteq> a" using assms(4) by (auto simp: mult.commute mult.left_commute)
  then have "1 \<le> \<bar>c * d - a\<bar>" by simp
  then have "(2 ^ j :: int) * 1 \<le> 2 ^ j * \<bar>c * d - a\<bar>" by (intro mult_left_mono) simp_all
  moreover have "c * 2 ^ j * d - a * 2 ^ j = 2 ^ j * (c * d - a)" by (simp add: algebra_simps)
  then have "\<bar>c * 2 ^ j * d - a * 2 ^ j\<bar> = 2 ^ j * \<bar>c * d - a\<bar>" by (simp add: abs_mult)
  ultimately have "2 ^ j \<le> \<bar>c * 2 ^ j * d - a * 2 ^ j\<bar>" by simp
  then have "2 * 2 ^ j \<le> 2 * \<bar>c * 2 ^ j * d - a * 2 ^ j\<bar>" by simp
  with dlt show ?thesis by (rule less_le_trans)
qed

lemma quotient_core:
  fixes a d :: int and j :: nat
  assumes a: "0 < a" "a < 2 ^ 53" and d: "0 < d" and j: "2 ^ 52 * d \<le> a * 2 ^ j"
  shows "nearestEven (a * 2 ^ j) d div 2 ^ j = a div d"
    and "(- nearestEven (a * 2 ^ j) d) div 2 ^ j = (- a) div d"
proof -
  define N where "N = a * 2 ^ j"
  define k where "k = N div d"
  define r where "r = N mod d"
  define n where "n = nearestEven N d"
  have N0: "0 \<le> N" using a by (simp add: N_def)
  have r: "0 \<le> r" "r < d" using d by (simp_all add: r_def)
  have N: "N = k * d + r" by (simp add: k_def r_def)
  have kq: "k div 2 ^ j = a div d"
  proof -
    have "k div 2 ^ j = N div (d * 2 ^ j)" unfolding k_def by (simp add: zdiv_zmult2_eq)
    also have "\<dots> = a div d" unfolding N_def by simp
    finally show ?thesis .
  qed
  have close: "\<And>c. c * 2 ^ j * d \<noteq> N \<Longrightarrow> d < 2 * \<bar>c * 2 ^ j * d - N\<bar>"
    unfolding N_def by (rule no_close_multiple [OF a(2) d j])
  have up: "\<not> 2 ^ j dvd (k + 1)" if "d \<le> 2 * r"
  proof
    assume "2 ^ j dvd (k + 1)"
    then obtain c where c: "k + 1 = c * 2 ^ j" by (auto simp: dvd_def mult.commute)
    have diff: "c * 2 ^ j * d - N = d - r" using N c [symmetric] by (simp add: algebra_simps)
    then have "c * 2 ^ j * d \<noteq> N" using r by linarith
    then have "d < 2 * \<bar>c * 2 ^ j * d - N\<bar>" by (rule close)
    moreover have "\<bar>c * 2 ^ j * d - N\<bar> = d - r" using diff r by simp
    ultimately show False using that by simp
  qed
  have down: "\<not> 2 ^ j dvd k" if "0 < r" "2 * r \<le> d"
  proof
    assume "2 ^ j dvd k"
    then obtain c where c: "k = c * 2 ^ j" by (auto simp: dvd_def mult.commute)
    have diff: "c * 2 ^ j * d - N = - r" using N c [symmetric] by (simp add: algebra_simps)
    then have "c * 2 ^ j * d \<noteq> N" using that by linarith
    then have "d < 2 * \<bar>c * 2 ^ j * d - N\<bar>" by (rule close)
    moreover have "\<bar>c * 2 ^ j * d - N\<bar> = r" using diff that by simp
    ultimately show False using that by simp
  qed
  have step: "(x + 1) div q = x div q" if "0 < q" "\<not> q dvd (x + 1)" for x q :: int
  proof -
    define m where "m = (x + 1) mod q"
    have "m \<noteq> 0" using that(2) by (simp add: m_def dvd_eq_mod_eq_0)
    moreover have "0 \<le> m" "m < q" using that(1) by (simp_all add: m_def)
    ultimately have m: "0 \<le> m - 1" "m - 1 < q" by linarith+
    have "x + 1 = q * ((x + 1) div q) + m" by (simp add: m_def)
    then have "x = q * ((x + 1) div q) + (m - 1)" by linarith
    then have "x div q = (x + 1) div q" using m by (rule int_div_pos_eq)
    then show ?thesis by simp
  qed
  have negdiv: "(- x) div q = - (x div q) - 1" if "0 < q" "\<not> q dvd x" for x q :: int
    using that zdiv_zminus1_eq_if [of q x] by (simp add: dvd_eq_mod_eq_0)
  have pow: "(0::int) < 2 ^ j" by simp
  have alt: "(n = k \<and> 2 * r \<le> d) \<or> (n = k + 1 \<and> d \<le> 2 * r)"
    using nearestEven_cases [OF d N0] by (simp add: n_def k_def r_def)
  then consider (same) "n = k" "2 * r \<le> d" | (succ) "n = k + 1" "d \<le> 2 * r" by blast
  then have pos: "n div 2 ^ j = a div d"
  proof cases
    case same
    then show ?thesis using kq by simp
  next
    case succ
    then show ?thesis using step [OF pow, of k] up kq by simp
  qed
  have neg: "(- n) div 2 ^ j = (- a) div d"
  proof (cases "r = 0")
    case True
    then have nk: "n = k" using d by (simp add: n_def nearestEven_def Let_def k_def r_def)
    have "(- a) div d = (2 ^ j * (- a)) div (2 ^ j * d)"
      by (rule div_mult_mult1 [symmetric]) simp
    also have "\<dots> = (- (k * d)) div (d * 2 ^ j)" using N True by (simp add: N_def mult.commute)
    also have "\<dots> = (- k) div 2 ^ j"
      using d by (metis div_mult_mult1 mult.commute mult_minus_left less_irrefl)
    finally show ?thesis using nk by simp
  next
    case False
    then have rpos: "0 < r" using r by simp
    have "\<not> d dvd N" using False by (simp add: r_def dvd_eq_mod_eq_0)
    then have "\<not> d dvd a" by (auto simp: N_def)
    then have target: "(- a) div d = - (k div 2 ^ j) - 1" using negdiv [OF d] kq by simp
    from alt show ?thesis
    proof
      assume "n = k \<and> 2 * r \<le> d"
      then show ?thesis using negdiv [OF pow, of k] down rpos target by simp
    next
      assume "n = k + 1 \<and> d \<le> 2 * r"
      then show ?thesis using negdiv [OF pow, of "k + 1"] step [OF pow, of k] up target by simp
    qed
  qed
  show "nearestEven (a * 2 ^ j) d div 2 ^ j = a div d" using pos by (simp add: n_def N_def)
  show "(- nearestEven (a * 2 ^ j) d) div 2 ^ j = (- a) div d" using neg by (simp add: n_def N_def)
qed


lemma floorQuotient_exact:
  assumes "isSafeInteger m" and "p \<noteq> 0"
  shows "floorQuotient m p = m div p"
proof (cases "m = 0")
  case True
  then show ?thesis using assms(2)
    by (simp add: floorQuotient_def nearestEven_def Let_def addBits.simps [of 0])
next
  case False
  define a where "a = \<bar>m\<bar>"
  define d where "d = \<bar>p\<bar>"
  define j where "j = addBits a d"
  have a: "0 < a" "a < 2 ^ 53" using False assms(1) by (simp_all add: a_def isSafeInteger_def)
  have d: "0 < d" using assms(2) by (simp add: d_def)
  have small: "\<not> 2 ^ 53 * d \<le> a"
  proof -
    have "(2 ^ 53 :: int) * 1 \<le> 2 ^ 53 * d" using d by (intro mult_left_mono) simp_all
    then show ?thesis using a(2) by simp
  qed
  have j: "2 ^ 52 * d \<le> a * 2 ^ j" using addBits_spec [OF a(1) d] by (simp add: j_def)
  have fq: "floorQuotient m p = (sgn m * sgn p * nearestEven (a * 2 ^ j) d) div 2 ^ j"
    using small by (simp add: floorQuotient_def Let_def a_def d_def j_def)
  consider (pp) "0 < m" "0 < p" | (nn) "m < 0" "p < 0" | (pn) "0 < m" "p < 0" | (np) "m < 0" "0 < p"
    using False assms(2) by linarith
  then show ?thesis
  proof cases
    case pp
    then show ?thesis using quotient_core(1) [OF a d j] by (simp add: fq a_def d_def)
  next
    case nn
    then show ?thesis using quotient_core(1) [OF a d j] by (simp add: fq a_def d_def)
  next
    case pn
    then have "m div p = (- a) div d" by (simp add: a_def d_def div_minus_right)
    then show ?thesis using pn quotient_core(2) [OF a d j] by (simp add: fq)
  next
    case np
    then have "m div p = (- a) div d" by (simp add: a_def d_def)
    then show ?thesis using np quotient_core(2) [OF a d j] by (simp add: fq)
  qed
qed

text \<open>On a step none of whose arithmetic results is rounded, the code computes what exact
  integer arithmetic computes.\<close>

lemma processOrderDouble_exact:
  assumes ex: "exactStep this"
  shows "processOrderDouble now this = processOrder now this"
proof (cases this rule: books_cases)
  case noBuy
  then show ?thesis by (simp add: processOrderDouble_def processOrder_def hasFoundOverlap_noBuy)
next
  case (noSell b bs)
  then show ?thesis by (simp add: processOrderDouble_def processOrder_def hasFoundOverlap_noSell)
next
  case (both b bs s ss)
  note hfo = hasFoundOverlap_Cons [OF both]
  show ?thesis
  proof (cases "price s < price b")
    case False
    then show ?thesis by (simp add: processOrderDouble_def processOrder_def hfo)
  next
    case True
    have g1: "getBestBuyOrder (this\<lparr>buyOrders := b # bs, sellOrders := s # ss\<rparr>)
        = (Inr b, this\<lparr>buyOrders := b # bs, sellOrders := s # ss\<rparr>)"
      by (rule getBestBuyOrder_sorted [OF both(1)]) simp
    have g2: "getBestSellOrder (this\<lparr>buyOrders := b # bs, sellOrders := s # ss\<rparr>)
        = (Inr s, this\<lparr>buyOrders := b # bs, sellOrders := s # ss\<rparr>)"
      by (rule getBestSellOrder_sorted [OF both(2)]) simp
    note unfold = processOrderDouble_def processOrder_def hfo True g1 g2 Let_def
    show ?thesis
    proof (cases "users this (account s)")
      case None
      then show ?thesis by (simp add: unfold)
    next
      case (Some su)
      define d1 where "d1 = (if stock su < quantity s then stock su else min (quantity b) (quantity s))"
      have eq1: "(if stock su < quantity s then stock su else min (quantity b) (quantity s)) = d1"
        by (simp add: d1_def)
      show ?thesis
      proof (cases "d1 = 0")
        case d0: True
        then show ?thesis using Some by (simp add: unfold eq1 split del: if_split)
      next
        case dn: False
        show ?thesis
        proof (cases "users this (account b)")
          case None
          then show ?thesis using dn Some by (simp add: unfold eq1 split del: if_split)
        next
          case bu: (Some bu)
          show ?thesis
          proof (cases "money bu < price b")
            case poor: True
            then show ?thesis using dn Some bu by (simp add: unfold eq1 split del: if_split)
          next
            case rich: False
            have safe: "list_all isSafeInteger (stepNumbers b s bu su (overheadMade this))"
              using ex Some bu True dn rich
              by (simp add: exactStep_def getBestBuyOrder_Cons [OF both(1)]
                  getBestSellOrder_Cons [OF both(2)] Let_def eq1 split del: if_split)
            have t1: "toDouble (price b * d1) = price b * d1"
              using safe by (simp add: stepNumbers_def Let_def eq1 toDouble_exact split del: if_split)
            show ?thesis
            proof (cases "money bu < price b * d1")
              case c: True
              then have pnz: "price b \<noteq> 0" using rich by auto
              define d where "d = money bu div price b"
              have nums: "list_all isSafeInteger
                 ([money bu, price b * d, d * price s, price b * d - d * price s,
                   overheadMade this + (price b * d - d * price s),
                   stock bu + d, stock su - d, money bu - price b * d, money su + d * price s]
                  @ (if d < quantity b then [quantity b - d] else [])
                  @ (if d < quantity s then [quantity s - d] else []))"
                using safe c by (simp add: stepNumbers_def Let_def eq1 d_def split del: if_split cong: if_cong)
              have fq: "floorQuotient (money bu) (price b) = d"
                using nums pnz by (simp add: d_def floorQuotient_exact)
              have r: "toDouble (price b * d) = price b * d" "toDouble (d * price s) = d * price s"
                "toDouble (price b * d - d * price s) = price b * d - d * price s"
                "toDouble (overheadMade this + (price b * d - d * price s))
                   = overheadMade this + (price b * d - d * price s)"
                "toDouble (stock bu + d) = stock bu + d" "toDouble (stock su - d) = stock su - d"
                "toDouble (money bu - price b * d) = money bu - price b * d"
                "toDouble (money su + d * price s) = money su + d * price s"
                using nums by (simp_all add: toDouble_exact)
              have rb: "d < quantity b \<Longrightarrow> toDouble (quantity b - d) = quantity b - d"
                and rs: "d < quantity s \<Longrightarrow> toDouble (quantity s - d) = quantity s - d"
                using nums by (simp_all add: toDouble_exact)
              show ?thesis using dn Some bu rich c pnz
                by (simp add: unfold eq1 t1 fq d_def [symmetric] r rb rs split del: if_split cong: if_cong)
            next
              case c: False
              have nums: "list_all isSafeInteger
                 ([price b * d1, d1 * price s, price b * d1 - d1 * price s,
                   overheadMade this + (price b * d1 - d1 * price s),
                   stock bu + d1, stock su - d1, money bu - price b * d1, money su + d1 * price s]
                  @ (if d1 < quantity b then [quantity b - d1] else [])
                  @ (if d1 < quantity s then [quantity s - d1] else []))"
                using safe c by (simp add: stepNumbers_def Let_def eq1 split del: if_split cong: if_cong)
              have r: "toDouble (d1 * price s) = d1 * price s"
                "toDouble (price b * d1 - d1 * price s) = price b * d1 - d1 * price s"
                "toDouble (overheadMade this + (price b * d1 - d1 * price s))
                   = overheadMade this + (price b * d1 - d1 * price s)"
                "toDouble (stock bu + d1) = stock bu + d1" "toDouble (stock su - d1) = stock su - d1"
                "toDouble (money bu - price b * d1) = money bu - price b * d1"
                "toDouble (money su + d1 * price s) = money su + d1 * price s"
                using nums by (simp_all add: toDouble_exact)
              have rb: "d1 < quantity b \<Longrightarrow> toDouble (quantity b - d1) = quantity b - d1"
                and rs: "d1 < quantity s \<Longrightarrow> toDouble (quantity s - d1) = quantity s - d1"
                using nums by (simp_all add: toDouble_exact)
              show ?thesis using dn Some bu rich c
                by (simp add: unfold eq1 t1 r rb rs split del: if_split cong: if_cong)
            qed
          qed
        qed
      qed
    qed
  qed
qed

subsection \<open>Balances after a settlement step\<close>


lemmas scenario_simps = engine_simps processOrder_def andThen_def Let_def





text \<open>
  Nor does the claim hold without the condition on the arithmetic. With money
  13510798882111490, a bid at price 3 for 4503599627370508 and an ask of the same quantity
  from a seller who holds it, balances, prices and quantities are non-negative. The budget
  cap takes the quotient of the money by 3, which rounds up to 4503599627370497; the cost
  of that quantity rounds to 13510798882111492, and the buyer is left with money -2.
\<close>

lemma rounding_breaks_non_negative_balances:
  "balancesNonNegative bigMoney \<and> pricesNonNegative bigMoney \<and> quantitiesNonNegative bigMoney
   \<and> \<not> exactStep bigMoney
   \<and> users (snd (processOrderDouble 3 bigMoney)) ''A''
       = Some \<lparr>money = - 2, stock = 4503599627370497\<rparr>
   \<and> users (snd (processOrder 3 bigMoney)) ''A''
       = Some \<lparr>money = 2, stock = 4503599627370496\<rparr>"
proof -
  have h1: "balancesNonNegative bigMoney"
    by (simp add: balancesNonNegative_def bigMoney_def engine_simps)
  have h2: "pricesNonNegative bigMoney"
    by (simp add: pricesNonNegative_def bigMoney_def engine_simps)
  have h3: "quantitiesNonNegative bigMoney"
    by (simp add: quantitiesNonNegative_def bigMoney_def engine_simps)
  have h4: "\<not> exactStep bigMoney"
    by code_simp
  have d: "users (snd (processOrderDouble 3 bigMoney)) ''A''
       = Some \<lparr>money = - 2, stock = 4503599627370497\<rparr>"
    by code_simp
  have i: "users (snd (processOrder 3 bigMoney)) ''A''
       = Some \<lparr>money = 2, stock = 4503599627370496\<rparr>"
    by (simp add: bigMoney_def scenario_simps)
  show ?thesis using h1 h2 h3 h4 d i by blast
qed

subsection \<open>Trades\<close>

lemma tail_history:
  fixes t3 :: Matcher and c1 c2 :: bool and b' s' :: Order and e :: HistoryEntry
  defines "T \<equiv> andThen (if c1 then addOrderPreservingTimestamp b' t3 else (Inr (), t3)) (\<lambda>_ t4.
      andThen (if c2 then addOrderPreservingTimestamp s' t4 else (Inr (), t4)) (\<lambda>_ t5.
        (Inr (), t5\<lparr>buyOrders := shift (buyOrders t5), sellOrders := shift (sellOrders t5),
                     history := history t5 @ [e]\<rparr>)))"
  shows "history (snd T) = history t3 \<or> history (snd T) = history t3 @ [e]"
  by (simp add: T_def addOrderPreservingTimestamp_def)

text \<open>A step that appends a history entry is a trade, and the entry records the matched
  quantity.\<close>

lemma processOrder_trade:
  assumes "history (snd (processOrder now this)) = history this @ [e]"
      and "fst (getBestBuyOrder this) = Inr b"
      and "fst (getBestSellOrder this) = Inr s"
  obtains bs ss su bu d1 where
    "sortBy buyCompare (buyOrders this) = b # bs" "sortBy sellCompare (sellOrders this) = s # ss"
    "price s < price b" "users this (account s) = Some su" "users this (account b) = Some bu"
    "d1 = (if stock su < quantity s then stock su else min (quantity b) (quantity s))"
    "d1 \<noteq> 0" "price b \<le> money bu"
    "tradeQuantity e = (if money bu < price b * d1 then money bu div price b else d1)"
    "e = \<lparr>buyer = account b, seller = account s, buyPrice = price b, sellPrice = price s,
          tradeQuantity = tradeQuantity e, tradeTime = now\<rparr>"
    "processOrder now this =
       andThen
         (if tradeQuantity e < quantity b then
            addOrderPreservingTimestamp (b\<lparr>quantity := quantity b - tradeQuantity e\<rparr>)
              (this\<lparr>buyOrders := b # bs, sellOrders := s # ss,
                 overheadMade := overheadMade this
                   + (price b * tradeQuantity e - tradeQuantity e * price s),
                 users := (users this)
                   (account b \<mapsto> \<lparr>money = money bu - price b * tradeQuantity e,
                                 stock = stock bu + tradeQuantity e\<rparr>,
                    account s \<mapsto> \<lparr>money = money su + tradeQuantity e * price s,
                                 stock = stock su - tradeQuantity e\<rparr>)\<rparr>)
          else (Inr (), this\<lparr>buyOrders := b # bs, sellOrders := s # ss,
                 overheadMade := overheadMade this
                   + (price b * tradeQuantity e - tradeQuantity e * price s),
                 users := (users this)
                   (account b \<mapsto> \<lparr>money = money bu - price b * tradeQuantity e,
                                 stock = stock bu + tradeQuantity e\<rparr>,
                    account s \<mapsto> \<lparr>money = money su + tradeQuantity e * price s,
                                 stock = stock su - tradeQuantity e\<rparr>)\<rparr>)) (\<lambda>_ this4.
       andThen
         (if tradeQuantity e < quantity s then
            addOrderPreservingTimestamp (s\<lparr>quantity := quantity s - tradeQuantity e\<rparr>) this4
          else (Inr (), this4)) (\<lambda>_ this5.
       (Inr (), this5
          \<lparr>buyOrders := shift (buyOrders this5),
           sellOrders := shift (sellOrders this5),
           history := history this5 @ [e]\<rparr>)))"
proof (cases rule: processOrder_cases [of this now])
  case noOverlap
  then show ?thesis using assms(1) by (simp add: hasFoundOverlap_frame)
next
  case (noSeller b bs s ss)
  then show ?thesis using assms(1) by simp
next
  case (evictSell b bs s ss su)
  then show ?thesis using assms(1) by simp
next
  case (noBuyer b bs s ss su)
  then show ?thesis using assms(1) by simp
next
  case (evictBuy b bs s ss su bu)
  then show ?thesis using assms(1) by simp
next
  case (trade b' bs s' ss su bu d1 d this3)
  have b: "b' = b" using assms(2) by (simp add: getBestBuyOrder_Cons [OF trade(1)])
  have s: "s' = s" using assms(3) by (simp add: getBestSellOrder_Cons [OF trade(2)])
  let ?e = "\<lparr>buyer = account b, seller = account s, buyPrice = price b, sellPrice = price s,
          tradeQuantity = d, tradeTime = now\<rparr>"
  have "history (snd (processOrder now this)) = history this3
      \<or> history (snd (processOrder now this)) = history this3 @ [?e]"
    unfolding trade(11) b s by (rule tail_history)
  moreover have "history this3 = history this" by (simp add: trade(10))
  ultimately have e: "e = ?e" using assms(1) by auto
  then have d: "d = tradeQuantity e" by simp
  show ?thesis
    using that [OF trade(1,2,3,4,7,5,6,8) [unfolded b s]] trade(9,10,11) e
    unfolding b s d by simp
qed

text \<open>Between two different accounts a trade moves money and stock as the quantities of the
  step say: the buyer pays the matched quantity at the bid price, the seller receives it at
  the ask price, and the difference is added to the overhead.\<close>

lemma trade_between_two_accounts:
  assumes "history (snd (processOrder now this)) = history this @ [e]"
      and "fst (getBestBuyOrder this) = Inr b"
      and "fst (getBestSellOrder this) = Inr s"
      and "account b \<noteq> account s"
  shows "\<exists>bu su. users this (account b) = Some bu \<and> users this (account s) = Some su
      \<and> users (snd (processOrder now this)) (account b)
          = Some \<lparr>money = money bu - tradeQuantity e * price b,
                  stock = stock bu + tradeQuantity e\<rparr>
      \<and> users (snd (processOrder now this)) (account s)
          = Some \<lparr>money = money su + tradeQuantity e * price s,
                  stock = stock su - tradeQuantity e\<rparr>
      \<and> overheadMade (snd (processOrder now this))
          = overheadMade this + (tradeQuantity e * price b - tradeQuantity e * price s)"
proof -
  from assms(1-3) obtain bs ss su bu d1 where
    u: "users this (account s) = Some su" "users this (account b) = Some bu"
    and po: "processOrder now this =
       andThen
         (if tradeQuantity e < quantity b then
            addOrderPreservingTimestamp (b\<lparr>quantity := quantity b - tradeQuantity e\<rparr>)
              (this\<lparr>buyOrders := b # bs, sellOrders := s # ss,
                 overheadMade := overheadMade this
                   + (price b * tradeQuantity e - tradeQuantity e * price s),
                 users := (users this)
                   (account b \<mapsto> \<lparr>money = money bu - price b * tradeQuantity e,
                                 stock = stock bu + tradeQuantity e\<rparr>,
                    account s \<mapsto> \<lparr>money = money su + tradeQuantity e * price s,
                                 stock = stock su - tradeQuantity e\<rparr>)\<rparr>)
          else (Inr (), this\<lparr>buyOrders := b # bs, sellOrders := s # ss,
                 overheadMade := overheadMade this
                   + (price b * tradeQuantity e - tradeQuantity e * price s),
                 users := (users this)
                   (account b \<mapsto> \<lparr>money = money bu - price b * tradeQuantity e,
                                 stock = stock bu + tradeQuantity e\<rparr>,
                    account s \<mapsto> \<lparr>money = money su + tradeQuantity e * price s,
                                 stock = stock su - tradeQuantity e\<rparr>)\<rparr>)) (\<lambda>_ this4.
       andThen
         (if tradeQuantity e < quantity s then
            addOrderPreservingTimestamp (s\<lparr>quantity := quantity s - tradeQuantity e\<rparr>) this4
          else (Inr (), this4)) (\<lambda>_ this5.
       (Inr (), this5
          \<lparr>buyOrders := shift (buyOrders this5),
           sellOrders := shift (sellOrders this5),
           history := history this5 @ [e]\<rparr>)))"
    by (rule processOrder_trade)
  have "users (snd (processOrder now this)) = (users this)
                   (account b \<mapsto> \<lparr>money = money bu - price b * tradeQuantity e,
                                 stock = stock bu + tradeQuantity e\<rparr>,
                    account s \<mapsto> \<lparr>money = money su + tradeQuantity e * price s,
                                 stock = stock su - tradeQuantity e\<rparr>)"
    unfolding po by (simp add: tail_fields(1))
  moreover have "overheadMade (snd (processOrder now this)) = overheadMade this
                   + (price b * tradeQuantity e - tradeQuantity e * price s)"
    unfolding po by (simp add: tail_fields(2))
  ultimately show ?thesis using u assms(4) by (simp add: mult.commute)
qed

text \<open>
  Claim C2, evaluated where buyer and seller are one account. The step makes a trade of
  quantity 5 at bid price 1500 and ask price 1000 and adds the overhead 2500, but the
  account's money goes from 15000 to 20000 and its stock from 71 to 66: only the seller's
  entry of \<^verbatim>\<open>usersPatch\<close> survives, so the buyer is neither debited 7500 nor credited 5
  units of stock.
\<close>

theorem self_trade_loses_the_debit:
  "fst (getBestBuyOrder selfTrade) = Inr (newOrder ''A'' 1500 5 BUY\<lparr>time := 1\<rparr>)
   \<and> fst (getBestSellOrder selfTrade) = Inr (newOrder ''A'' 1000 5 SELL\<lparr>time := 2\<rparr>)
   \<and> getUsers selfTrade ''A'' = Some \<lparr>money = 15000, stock = 71\<rparr>
   \<and> fst (processOrder 3 selfTrade) = Inr ()
   \<and> getHistory (snd (processOrder 3 selfTrade))
       = [\<lparr>buyer = ''A'', seller = ''A'', buyPrice = 1500, sellPrice = 1000,
           tradeQuantity = 5, tradeTime = 3\<rparr>]
   \<and> getOverheadMade (snd (processOrder 3 selfTrade)) = 2500
   \<and> getUsers (snd (processOrder 3 selfTrade)) ''A'' = Some \<lparr>money = 20000, stock = 66\<rparr>"
  by (simp add: selfTrade_def scenario_simps getUsers_def getHistory_def getOverheadMade_def)

text \<open>No result of that step is rounded: the code's doubles compute the same state.\<close>

lemma self_trade_is_exact:
  "exactStep selfTrade \<and> processOrderDouble 3 selfTrade = processOrder 3 selfTrade"
proof -
  have "exactStep selfTrade"
    by (simp add: exactStep_def stepNumbers_def isSafeInteger_def selfTrade_def engine_simps Let_def)
  then show ?thesis by (simp add: processOrderDouble_exact)
qed

subsection \<open>Scenario A\<close>

text \<open>
  Claim C5. From accounts \<open>a\<close> with money 15000 and stock 71 and \<open>b\<close> with money 19000 and
  stock 17, a bid of \<open>a\<close> for 5 at 1500 and an ask of \<open>b\<close> for 5 at 1000, one call of
  \<^verbatim>\<open>processOrder\<close> returns normally and leaves \<open>a\<close> with money 7500 and stock 76, \<open>b\<close> with
  money 24000 and stock 12, the overhead total 2500, and a history of exactly one entry:
  buyer \<open>a\<close>, seller \<open>b\<close>, buy price 1500, sell price 1000, quantity 5.
\<close>

theorem scenario_A:
  assumes "a \<noteq> b"
      and "this = performAll
         [AddUser a 15000 71, AddUser b 19000 17,
          AddOrder t1 (newOrder a 1500 5 BUY), AddOrder t2 (newOrder b 1000 5 SELL)]
         constructor"
  shows "fst (processOrder now this) = Inr ()
     \<and> getUsers (snd (processOrder now this)) a = Some \<lparr>money = 7500, stock = 76\<rparr>
     \<and> getUsers (snd (processOrder now this)) b = Some \<lparr>money = 24000, stock = 12\<rparr>
     \<and> getOverheadMade (snd (processOrder now this)) = 2500
     \<and> getHistory (snd (processOrder now this))
         = [\<lparr>buyer = a, seller = b, buyPrice = 1500, sellPrice = 1000,
             tradeQuantity = 5, tradeTime = now\<rparr>]"
  using assms
  by (simp add: scenario_simps getUsers_def getHistory_def getOverheadMade_def)

theorem scenario_A_witness:
  "''A'' \<noteq> ''B'' \<and> fst (processOrder 3 scenarioA) = Inr ()
     \<and> getUsers (snd (processOrder 3 scenarioA)) ''A'' = Some \<lparr>money = 7500, stock = 76\<rparr>
     \<and> getUsers (snd (processOrder 3 scenarioA)) ''B'' = Some \<lparr>money = 24000, stock = 12\<rparr>
     \<and> getOverheadMade (snd (processOrder 3 scenarioA)) = 2500
     \<and> getHistory (snd (processOrder 3 scenarioA))
         = [\<lparr>buyer = ''A'', seller = ''B'', buyPrice = 1500, sellPrice = 1000,
             tradeQuantity = 5, tradeTime = 3\<rparr>]"
proof -
  have h: "''A'' \<noteq> ''B''" by simp
  show ?thesis using scenario_A [OF h scenarioA_def, of 3] h by blast
qed

text \<open>No result of the step of scenario A is rounded either.\<close>

lemma first_scenario_is_exact:
  assumes "a \<noteq> b"
      and "this = performAll
         [AddUser a 15000 71, AddUser b 19000 17,
          AddOrder t1 (newOrder a 1500 5 BUY), AddOrder t2 (newOrder b 1000 5 SELL)]
         constructor"
  shows "exactStep this \<and> processOrderDouble now this = processOrder now this"
proof -
  have "exactStep this"
    using assms
    by (simp add: exactStep_def stepNumbers_def isSafeInteger_def engine_simps Let_def)
  then show ?thesis by (simp add: processOrderDouble_exact)
qed

subsection \<open>Remainders of partial fills\<close>





subsection \<open>Booked quantities\<close>


lemma snd_getBestBuyOrder:
  "snd (getBestBuyOrder this) = this\<lparr>buyOrders := sortBy buyCompare (buyOrders this)\<rparr>"
  by (simp add: getBestBuyOrder_def Let_def split: list.splits)

lemma snd_getBestSellOrder:
  "snd (getBestSellOrder this) = this\<lparr>sellOrders := sortBy sellCompare (sellOrders this)\<rparr>"
  by (simp add: getBestSellOrder_def Let_def split: list.splits)

lemma snd_getBestNBuyOrders: "snd (getBestNBuyOrders n this) = snd (getBestBuyOrder this)"
  by (simp add: getBestNBuyOrders_def split: prod.splits sum.splits)

lemma snd_getBestNSellOrders: "snd (getBestNSellOrders n this) = snd (getBestSellOrder this)"
  by (simp add: getBestNSellOrders_def split: prod.splits sum.splits)

lemma set_hasFoundOverlap:
  "set (buyOrders (snd (hasFoundOverlap this))) = set (buyOrders this)"
  "set (sellOrders (snd (hasFoundOverlap this))) = set (sellOrders this)"
  using hasFoundOverlap_frame [of this] by (metis mset_eq_setD)+







subsection \<open>The books of a reachable engine\<close>

text \<open>Whatever the calls, the bid array holds \<^verbatim>\<open>BUY\<close> orders only and the ask array
  \<^verbatim>\<open>SELL\<close> orders only: the condition on the books in the statement about remainders
  holds of every reachable engine.\<close>

lemma booksWellFormed_sorted:
  assumes "booksWellFormed this"
      and "set bs' \<subseteq> set (sortBy buyCompare (buyOrders this))"
      and "set ss' \<subseteq> set (sortBy sellCompare (sellOrders this))"
  shows "booksWellFormed (this\<lparr>buyOrders := bs', sellOrders := ss'\<rparr>)"
  using assms by (auto simp: booksWellFormed_def set_sortBy)

lemma processOrder_booksWellFormed:
  assumes "booksWellFormed this"
  shows "booksWellFormed (snd (processOrder now this))"
proof (cases rule: processOrder_cases [of this now])
  case noOverlap
  then show ?thesis using assms by (simp add: booksWellFormed_def set_hasFoundOverlap)
next
  case (noSeller b bs s ss)
  then show ?thesis using booksWellFormed_sorted [OF assms, of "b # bs" "s # ss"] by simp
next
  case (evictSell b bs s ss su)
  then show ?thesis using booksWellFormed_sorted [OF assms, of "b # bs" ss] by auto
next
  case (noBuyer b bs s ss su)
  then show ?thesis using booksWellFormed_sorted [OF assms, of "b # bs" "s # ss"] by simp
next
  case (evictBuy b bs s ss su bu)
  then show ?thesis using booksWellFormed_sorted [OF assms, of bs "s # ss"] by auto
next
  case (trade b bs s ss su bu d1 d this3)
  have "b \<in> set (buyOrders this)" using trade(1) by (rule sortBy_buy_Cons(1))
  then have ab: "action b = BUY" using assms by (simp add: booksWellFormed_def)
  have "s \<in> set (sellOrders this)" using trade(2) by (rule sortBy_sell_Cons(1))
  then have as: "action s = SELL" using assms by (simp add: booksWellFormed_def)
  have c1: "d < quantity b \<Longrightarrow>
      quantity (b\<lparr>quantity := quantity b - d\<rparr>) \<noteq> 0 \<and> action (b\<lparr>quantity := quantity b - d\<rparr>) = BUY"
    using ab by simp
  have c2: "d < quantity s \<Longrightarrow>
      quantity (s\<lparr>quantity := quantity s - d\<rparr>) \<noteq> 0 \<and> action (s\<lparr>quantity := quantity s - d\<rparr>) = SELL"
    using as by simp
  have books:
    "buyOrders (snd (processOrder now this))
       = bs @ (if d < quantity b then [b\<lparr>quantity := quantity b - d\<rparr>] else [])"
    "sellOrders (snd (processOrder now this))
       = ss @ (if d < quantity s then [s\<lparr>quantity := quantity s - d\<rparr>] else [])"
    by (simp_all add: trade(10,11) tail_wellFormed [OF c1 c2] del: andThen_simps split del: if_split)
  have "set bs \<subseteq> set (buyOrders this)" "set ss \<subseteq> set (sellOrders this)"
    using trade(1,2) set_sortBy [of buyCompare "buyOrders this"]
      set_sortBy [of sellCompare "sellOrders this"] by auto
  then show ?thesis using assms ab as unfolding booksWellFormed_def books by auto
qed

lemma perform_booksWellFormed:
  assumes "booksWellFormed this"
  shows "booksWellFormed (perform c this)"
proof (cases c)
  case (AddUser userid m s)
  then show ?thesis using assms by (simp add: addUser_def booksWellFormed_def)
next
  case (AddOrder now order)
  then show ?thesis using assms
    by (auto simp: addOrder_def addOrderPreservingTimestamp_def booksWellFormed_def)
next
  case GetBestBuyOrder
  then show ?thesis using assms
    by (simp add: snd_getBestBuyOrder booksWellFormed_def set_sortBy)
next
  case GetBestSellOrder
  then show ?thesis using assms
    by (simp add: snd_getBestSellOrder booksWellFormed_def set_sortBy)
next
  case (GetBestNBuyOrders n)
  then show ?thesis using assms
    by (simp add: snd_getBestNBuyOrders snd_getBestBuyOrder booksWellFormed_def set_sortBy)
next
  case (GetBestNSellOrders n)
  then show ?thesis using assms
    by (simp add: snd_getBestNSellOrders snd_getBestSellOrder booksWellFormed_def set_sortBy)
next
  case HasFoundOverlap
  then show ?thesis using assms by (simp add: booksWellFormed_def set_hasFoundOverlap)
next
  case (ProcessOrder now)
  then show ?thesis using assms by (simp add: processOrder_booksWellFormed)
qed

lemma performAll_booksWellFormed:
  "booksWellFormed this \<Longrightarrow> booksWellFormed (performAll calls this)"
  by (induction calls arbitrary: this) (simp_all add: perform_booksWellFormed)

lemma reachable_booksWellFormed: "booksWellFormed (performAll calls constructor)"
  by (rule performAll_booksWellFormed) (simp add: booksWellFormed_def constructor_def)

end
